theory Spec2Isabelle
  imports Main
begin

unbundle bit_operations_syntax

section \<open>Grid and path values (gnomes\_types.hpp)\<close>

text \<open>
  The algorithms of \<^verbatim>\<open>gnomes_algs.hpp\<close> are written against the classes \<^verbatim>\<open>grid\<close>
  and \<^verbatim>\<open>path\<close> of \<^verbatim>\<open>gnomes_types.hpp\<close>. Coordinates and counters are \<^verbatim>\<open>size_t\<close>
  in the source; they are natural numbers here. A grid holds its
  \<open>rows \<times> columns\<close> cells in memory, so \<^verbatim>\<open>rows() + columns()\<close> stays far below \<open>2^64\<close>
  and does not wrap, and every subtraction of the source is taken after the
  assertion that makes it exact.
\<close>

text \<open>Modelled from the spec: the cell kinds of \<^verbatim>\<open>gnomes_types.hpp\<close>. A cell is OPEN
  and carries a non-negative gold value, or it is ROCK.\<close>

datatype cell_kind = CELL_OPEN nat | CELL_ROCK

text \<open>Modelled from the spec: the gold value of a cell; a ROCK cell has none
  (a path created on a blocked start cell has gold 0).\<close>

fun cell_gold :: "cell_kind \<Rightarrow> nat" where
  "cell_gold (CELL_OPEN v) = v"
| "cell_gold CELL_ROCK = 0"

text \<open>Modelled from the spec: class \<^verbatim>\<open>grid\<close> of \<^verbatim>\<open>gnomes_types.hpp\<close>, an immutable
  board seen through its three read-only queries \<^verbatim>\<open>rows()\<close>, \<^verbatim>\<open>columns()\<close> and
  \<^verbatim>\<open>get(i,j)\<close>.\<close>

record grid =
  rows :: nat
  columns :: nat
  get :: "nat \<Rightarrow> nat \<Rightarrow> cell_kind"

text \<open>Modelled from the spec: the moves of \<^verbatim>\<open>gnomes_types.hpp\<close>; START is the
  sentinel for "no move taken yet".\<close>

datatype step_direction = STEP_DIRECTION_START | STEP_DIRECTION_RIGHT | STEP_DIRECTION_DOWN

text \<open>Modelled from the spec: class \<^verbatim>\<open>path\<close> of \<^verbatim>\<open>gnomes_types.hpp\<close>: the head
  position, the moves taken so far (oldest first) and the accumulated gold. The
  back-reference to the grid is the \<open>setting\<close> argument of the operations below.\<close>

record path =
  cur_row :: nat
  cur_column :: nat
  moves :: "step_direction list"
  gold :: nat

text \<open>The two ways a call can abort: a failed \<^verbatim>\<open>assert\<close>, and the dereference of an
  empty \<^verbatim>\<open>std::optional\<close>.\<close>

datatype error = ASSERTION_FAILED | NULLOPT_DEREFERENCE

text \<open>Modelled from the spec: the constructor \<^verbatim>\<open>path(setting)\<close>: head at (0,0), no
  moves, gold equal to the start cell's value (0 when the start cell is ROCK).\<close>

definition path_init :: "grid \<Rightarrow> path" where
  "path_init setting =
     \<lparr> cur_row = 0, cur_column = 0, moves = [], gold = cell_gold (get setting 0 0) \<rparr>"

text \<open>Modelled from the spec: \<^verbatim>\<open>path::total_gold()\<close>.\<close>

definition total_gold :: "path \<Rightarrow> nat" where
  "total_gold p = gold p"

text \<open>Modelled from the spec: \<^verbatim>\<open>path::last_step()\<close>, the most recent move, or START
  when no move has been taken.\<close>

definition last_step :: "path \<Rightarrow> step_direction" where
  "last_step p = (if moves p = [] then STEP_DIRECTION_START else last (moves p))"

text \<open>The cell a move leads to.\<close>

fun move_pos :: "step_direction \<Rightarrow> nat \<times> nat \<Rightarrow> nat \<times> nat" where
  "move_pos STEP_DIRECTION_DOWN (r, c) = (Suc r, c)"
| "move_pos STEP_DIRECTION_RIGHT (r, c) = (r, Suc c)"
| "move_pos STEP_DIRECTION_START (r, c) = (r, c)"

text \<open>Modelled from the spec: a cell that a path may enter: within the bounds of
  the grid and not ROCK.\<close>

definition may_step :: "grid \<Rightarrow> nat \<times> nat \<Rightarrow> bool" where
  "may_step setting pos =
     (fst pos < rows setting \<and> snd pos < columns setting
      \<and> get setting (fst pos) (snd pos) \<noteq> CELL_ROCK)"

text \<open>Modelled from the spec: \<^verbatim>\<open>path::is_step_valid(direction)\<close>: moving one cell
  RIGHT or DOWN from the head stays within bounds and the destination is not
  ROCK. START is not a move.\<close>

definition is_step_valid :: "grid \<Rightarrow> path \<Rightarrow> step_direction \<Rightarrow> bool" where
  "is_step_valid setting p d =
     (d \<noteq> STEP_DIRECTION_START
      \<and> may_step setting (move_pos d (cur_row p, cur_column p)))"

text \<open>Modelled from the spec: \<^verbatim>\<open>path::add_step(direction)\<close>: asserts that the step
  is valid, then appends the move, advances the head and adds the destination
  cell's gold.\<close>

definition add_step :: "grid \<Rightarrow> path \<Rightarrow> step_direction \<Rightarrow> error + path" where
  "add_step setting p d =
     (if \<not> is_step_valid setting p d then Inl ASSERTION_FAILED
      else
        let pos = move_pos d (cur_row p, cur_column p) in
        Inr \<lparr> cur_row = fst pos, cur_column = snd pos, moves = moves p @ [d],
              gold = gold p + cell_gold (get setting (fst pos) (snd pos)) \<rparr>)"

section \<open>Counting loops\<close>

text \<open>\<^verbatim>\<open>for (size_t i = lo; i < hi; ++i) body\<close> over a state \<open>s\<close>; an abort in
  the body ends the loop with that error.\<close>

function for_loop :: "nat \<Rightarrow> nat \<Rightarrow> (nat \<Rightarrow> 's \<Rightarrow> error + 's) \<Rightarrow> 's \<Rightarrow> error + 's" where
  "for_loop i hi body s =
     (if i < hi then
        (case body i s of
           Inl e \<Rightarrow> Inl e
         | Inr s' \<Rightarrow> for_loop (Suc i) hi body s')
      else Inr s)"
  by pat_completeness auto
termination
  by (relation "measure (\<lambda>(i, hi, body, s). hi - i)") auto

declare for_loop.simps [simp del]

section \<open>Exhaustive search (greedy\_gnomes\_exhaustive)\<close>

text \<open>The body of the loop over \<open>k\<close> (lines 51-69): bit \<open>k\<close> of \<open>bits\<close> chooses RIGHT
  (1) or DOWN (0); the move is appended only when it is valid.\<close>

definition exhaustive_step :: "grid \<Rightarrow> nat \<Rightarrow> nat \<Rightarrow> path \<Rightarrow> error + path" where
  "exhaustive_step setting bits k candidate =
     (let bit = drop_bit k bits AND 1 in
      if bit = 1 then
        (if is_step_valid setting candidate STEP_DIRECTION_RIGHT
         then add_step setting candidate STEP_DIRECTION_RIGHT
         else Inr candidate)
      else
        (if is_step_valid setting candidate STEP_DIRECTION_DOWN
         then add_step setting candidate STEP_DIRECTION_DOWN
         else Inr candidate))"

text \<open>Lines 49-69: the candidate decoded from \<open>bits\<close>, read from the least
  significant bit, starting from a fresh path.\<close>

definition exhaustive_candidate :: "grid \<Rightarrow> nat \<Rightarrow> nat \<Rightarrow> error + path" where
  "exhaustive_candidate setting len bits =
     for_loop 0 len (exhaustive_step setting bits) (path_init setting)"

text \<open>The body of the loop over \<open>bits\<close> (lines 48-73): build the candidate, then
  replace \<open>best\<close> when \<open>best\<close> has no move yet or the candidate has more gold.\<close>

definition exhaustive_bits :: "grid \<Rightarrow> nat \<Rightarrow> nat \<Rightarrow> path \<Rightarrow> error + path" where
  "exhaustive_bits setting len bits best =
     (case exhaustive_candidate setting len bits of
        Inl e \<Rightarrow> Inl e
      | Inr candidate \<Rightarrow>
          Inr (if last_step best = STEP_DIRECTION_START
                  \<or> total_gold candidate > total_gold best
               then candidate else best))"

text \<open>
  The loop condition of line 47 is \<^verbatim>\<open>bits <= pow(2,len)-1\<close>, a comparison in
  double precision. For \<open>len \<le> 53\<close> both sides are exact and the loop runs for
  \<open>bits = 0 .. 2^len - 1\<close>. For \<open>54 \<le> len < 64\<close> the right-hand side rounds to
  \<open>2^len\<close>, and \<open>bits\<close> converts to a double that is at most \<open>2^len\<close> as long as
  \<open>bits \<le> 2^len + 2^(len - 53)\<close> (round to nearest, ties to even). \<open>bits_bound len\<close>
  is the first value of \<open>bits\<close> for which the condition fails; it stays below
  \<open>2^64\<close> for \<open>len < 64\<close>, so the counter does not wrap.
\<close>

definition bits_bound :: "nat \<Rightarrow> nat" where
  "bits_bound len = (if len \<le> 53 then 2 ^ len else 2 ^ len + 2 ^ (len - 53) + 1)"

text \<open>The body of the loop over \<open>len\<close> (lines 46-74).\<close>

definition exhaustive_len :: "grid \<Rightarrow> nat \<Rightarrow> path \<Rightarrow> error + path" where
  "exhaustive_len setting len best =
     for_loop 0 (bits_bound len) (exhaustive_bits setting len) best"

text \<open>Lines 30-77. The loop \<^verbatim>\<open>len <= max_steps\<close> runs for \<open>len < Suc max_steps\<close>.\<close>

definition greedy_gnomes_exhaustive :: "grid \<Rightarrow> error + path" where
  "greedy_gnomes_exhaustive setting =
     (if \<not> rows setting > 0 then Inl ASSERTION_FAILED
      else if \<not> columns setting > 0 then Inl ASSERTION_FAILED
      else
        let max_steps = rows setting + columns setting - 2 in
        if \<not> max_steps < 64 then Inl ASSERTION_FAILED
        else for_loop 0 (Suc max_steps) (exhaustive_len setting) (path_init setting))"

section \<open>Dynamic programming (greedy\_gnomes\_dyn\_prog)\<close>

text \<open>The table \<^verbatim>\<open>vector<vector<optional<path>>>\<close>, read with \<open>A ! i ! j\<close> and
  written with \<open>table_set\<close>; the loops only use indices below \<open>rows\<close> and
  \<open>columns\<close>, the dimensions of the table.\<close>

type_synonym table = "path option list list"

definition table_set :: "table \<Rightarrow> nat \<Rightarrow> nat \<Rightarrow> path option \<Rightarrow> table" where
  "table_set A i j v = A[i := (A ! i)[j := v]]"

text \<open>Lines 107-116: \<^verbatim>\<open>from_above\<close>, the entry above extended by DOWN when that
  step is valid.\<close>

definition from_above :: "grid \<Rightarrow> table \<Rightarrow> nat \<Rightarrow> nat \<Rightarrow> error + path option" where
  "from_above setting A i j =
     (case (if i > 0 then A ! (i - 1) ! j else None) of
        None \<Rightarrow> Inr None
      | Some p \<Rightarrow>
          if is_step_valid setting p STEP_DIRECTION_DOWN
          then (case add_step setting p STEP_DIRECTION_DOWN of
                  Inl e \<Rightarrow> Inl e
                | Inr p' \<Rightarrow> Inr (Some p'))
          else Inr (Some p))"

text \<open>Lines 108-124: \<^verbatim>\<open>from_left\<close>, the entry to the left extended by RIGHT when
  that step is valid.\<close>

definition from_left :: "grid \<Rightarrow> table \<Rightarrow> nat \<Rightarrow> nat \<Rightarrow> error + path option" where
  "from_left setting A i j =
     (case (if j > 0 then A ! i ! (j - 1) else None) of
        None \<Rightarrow> Inr None
      | Some p \<Rightarrow>
          if is_step_valid setting p STEP_DIRECTION_RIGHT
          then (case add_step setting p STEP_DIRECTION_RIGHT of
                  Inl e \<Rightarrow> Inl e
                | Inr p' \<Rightarrow> Inr (Some p'))
          else Inr (Some p))"

text \<open>Lines 127-144: the choice between \<^verbatim>\<open>from_above\<close> and \<^verbatim>\<open>from_left\<close>; with
  neither present the entry is left as it is.\<close>

definition dp_choose :: "table \<Rightarrow> nat \<Rightarrow> nat \<Rightarrow> path option \<Rightarrow> path option \<Rightarrow> table" where
  "dp_choose A i j fa fl =
     (case fa of
        Some a \<Rightarrow>
          (case fl of
             Some l \<Rightarrow>
               if total_gold a > total_gold l then table_set A i j (Some a)
               else table_set A i j (Some l)
           | None \<Rightarrow> table_set A i j (Some a))
      | None \<Rightarrow>
          (case fl of
             Some l \<Rightarrow> table_set A i j (Some l)
           | None \<Rightarrow> A))"

text \<open>The body of the loop over \<open>j\<close> (lines 100-145).\<close>

definition dp_cell :: "grid \<Rightarrow> nat \<Rightarrow> nat \<Rightarrow> table \<Rightarrow> error + table" where
  "dp_cell setting i j A =
     (if get setting i j = CELL_ROCK then Inr (table_set A i j None)
      else
        case from_above setting A i j of
          Inl e \<Rightarrow> Inl e
        | Inr fa \<Rightarrow>
            (case from_left setting A i j of
               Inl e \<Rightarrow> Inl e
             | Inr fl \<Rightarrow> Inr (dp_choose A i j fa fl)))"

text \<open>The body of the loop over \<open>i\<close> (lines 99-146); \<^verbatim>\<open>j <= columns() - 1\<close> runs
  for \<open>j < Suc (columns - 1)\<close>.\<close>

definition dp_row :: "grid \<Rightarrow> nat \<Rightarrow> table \<Rightarrow> error + table" where
  "dp_row setting i A = for_loop 0 (Suc (columns setting - 1)) (dp_cell setting i) A"

text \<open>Lines 90-93: the table of absent entries with the fresh path at (0,0).\<close>

definition dp_init :: "grid \<Rightarrow> table" where
  "dp_init setting =
     table_set (replicate (rows setting) (replicate (columns setting) None))
       0 0 (Some (path_init setting))"

text \<open>Lines 90-148: the table after the general cases.\<close>

definition dp_fill :: "grid \<Rightarrow> error + table" where
  "dp_fill setting = for_loop 0 (Suc (rows setting - 1)) (dp_row setting) (dp_init setting)"

text \<open>The body of the post-processing loops (lines 157-159). The comparison
  dereferences \<open>best\<close> only when \<open>A[i][j]\<close> is present.\<close>

definition post_cell :: "table \<Rightarrow> nat \<Rightarrow> nat \<Rightarrow> path option \<Rightarrow> error + path option" where
  "post_cell A i j best =
     (case A ! i ! j of
        None \<Rightarrow> Inr best
      | Some a \<Rightarrow>
          (case best of
             None \<Rightarrow> Inl NULLOPT_DEREFERENCE
           | Some b \<Rightarrow> Inr (if total_gold a > total_gold b then Some a else best)))"

definition post_row :: "grid \<Rightarrow> table \<Rightarrow> nat \<Rightarrow> path option \<Rightarrow> error + path option" where
  "post_row setting A i best =
     for_loop 0 (Suc (columns setting - 1)) (post_cell A i) best"

text \<open>Lines 151-162: the scan for the entry of maximal gold, and \<^verbatim>\<open>return *best\<close>.\<close>

definition dp_post :: "grid \<Rightarrow> table \<Rightarrow> error + path" where
  "dp_post setting A =
     (case for_loop 0 (Suc (rows setting - 1)) (post_row setting A) (A ! 0 ! 0) of
        Inl e \<Rightarrow> Inl e
      | Inr best \<Rightarrow>
          (case best of
             None \<Rightarrow> Inl NULLOPT_DEREFERENCE
           | Some p \<Rightarrow> Inr p))"

text \<open>Lines 83-163.\<close>

definition greedy_gnomes_dyn_prog :: "grid \<Rightarrow> error + path" where
  "greedy_gnomes_dyn_prog setting =
     (if \<not> rows setting > 0 then Inl ASSERTION_FAILED
      else if \<not> columns setting > 0 then Inl ASSERTION_FAILED
      else
        case dp_fill setting of
          Inl e \<Rightarrow> Inl e
        | Inr A \<Rightarrow> dp_post setting A)"

section \<open>Monotone paths and their gold\<close>

text \<open>The cell reached from \<open>pos\<close> by a list of moves, and the cells visited on the
  way (the first one is \<open>pos\<close> itself).\<close>

fun end_pos :: "nat \<times> nat \<Rightarrow> step_direction list \<Rightarrow> nat \<times> nat" where
  "end_pos pos [] = pos"
| "end_pos pos (d # ds) = end_pos (move_pos d pos) ds"

fun visited :: "nat \<times> nat \<Rightarrow> step_direction list \<Rightarrow> (nat \<times> nat) list" where
  "visited pos [] = [pos]"
| "visited pos (d # ds) = pos # visited (move_pos d pos) ds"

text \<open>A valid monotone path: every move is RIGHT or DOWN and enters a cell that
  is within bounds and not ROCK. The path may stop anywhere.\<close>

fun valid_from :: "grid \<Rightarrow> nat \<times> nat \<Rightarrow> step_direction list \<Rightarrow> bool" where
  "valid_from setting pos [] = True"
| "valid_from setting pos (d # ds) =
     (d \<noteq> STEP_DIRECTION_START \<and> may_step setting (move_pos d pos)
      \<and> valid_from setting (move_pos d pos) ds)"

definition valid_path :: "grid \<Rightarrow> step_direction list \<Rightarrow> bool" where
  "valid_path setting ds = valid_from setting (0, 0) ds"

text \<open>The gold of a path: the sum of the gold of every visited cell, the start
  cell included.\<close>

definition cells_gold :: "grid \<Rightarrow> (nat \<times> nat) list \<Rightarrow> nat" where
  "cells_gold setting ps = sum_list (map (\<lambda>pos. cell_gold (get setting (fst pos) (snd pos))) ps)"

definition path_gold :: "grid \<Rightarrow> step_direction list \<Rightarrow> nat" where
  "path_gold setting ds = cells_gold setting (visited (0, 0) ds)"

text \<open>The path value that replaying \<open>ds\<close> from (0,0) produces, and the paths that
  are such values for a valid list of moves.\<close>

definition path_of :: "grid \<Rightarrow> step_direction list \<Rightarrow> path" where
  "path_of setting ds =
     \<lparr> cur_row = fst (end_pos (0, 0) ds), cur_column = snd (end_pos (0, 0) ds),
       moves = ds, gold = path_gold setting ds \<rparr>"

definition wf_path :: "grid \<Rightarrow> path \<Rightarrow> bool" where
  "wf_path setting p = (valid_path setting (moves p) \<and> p = path_of setting (moves p))"

text \<open>The bit pattern that the exhaustive search decodes into \<open>ds\<close>: bit \<open>k\<close> is 1
  when move \<open>k\<close> is RIGHT.\<close>

fun encode :: "step_direction list \<Rightarrow> nat" where
  "encode [] = 0"
| "encode (d # ds) = (if d = STEP_DIRECTION_RIGHT then 1 else 0) + 2 * encode ds"

section \<open>Invariants\<close>

text \<open>\<open>best\<close> is a well-formed path with at least the gold of every valid path
  selected by \<open>S\<close> (the candidates enumerated so far).\<close>

definition dominates :: "grid \<Rightarrow> path \<Rightarrow> (step_direction list \<Rightarrow> bool) \<Rightarrow> bool" where
  "dominates g best S =
     (wf_path g best \<and> (\<forall>ds. valid_path g ds \<and> S ds \<longrightarrow> path_gold g ds \<le> total_gold best))"

text \<open>The table has the dimensions of the grid.\<close>

definition table_dims :: "grid \<Rightarrow> table \<Rightarrow> bool" where
  "table_dims g A = (length A = rows g \<and> (\<forall>i<rows g. length (A ! i) = columns g))"

text \<open>Every present entry \<open>A[i][j]\<close> is a path whose head is \<open>(i, j)\<close>.\<close>

definition heads_ok :: "grid \<Rightarrow> table \<Rightarrow> bool" where
  "heads_ok g A =
     (table_dims g A \<and>
      (\<forall>i<rows g. \<forall>j<columns g. \<forall>p. A ! i ! j = Some p \<longrightarrow> cur_row p = i \<and> cur_column p = j))"

text \<open>Some valid path ends at \<open>pos\<close>.\<close>

definition reach :: "grid \<Rightarrow> nat \<times> nat \<Rightarrow> bool" where
  "reach g pos = (\<exists>ds. valid_path g ds \<and> end_pos (0, 0) ds = pos)"

text \<open>An entry of the finished part of the table: absent when no valid path ends
  at \<open>(i, j)\<close>, otherwise a path to \<open>(i, j)\<close> of maximal gold.\<close>

definition opt_entry :: "grid \<Rightarrow> nat \<Rightarrow> nat \<Rightarrow> path option \<Rightarrow> bool" where
  "opt_entry g i j e =
     (case e of
        None \<Rightarrow> \<not> reach g (i, j)
      | Some p \<Rightarrow>
          wf_path g p \<and> end_pos (0, 0) (moves p) = (i, j)
          \<and> (\<forall>ds. valid_path g ds \<and> end_pos (0, 0) ds = (i, j)
                \<longrightarrow> path_gold g ds \<le> total_gold p))"

text \<open>What \<^verbatim>\<open>from_above\<close> and \<^verbatim>\<open>from_left\<close> hold for the predecessor cell \<open>pre\<close>
  of \<open>(i, j)\<close>: absent when \<open>pre\<close> is unreachable, otherwise a path to \<open>(i, j)\<close> at
  least as good as every valid path through \<open>pre\<close>.\<close>

definition arrival :: "grid \<Rightarrow> nat \<Rightarrow> nat \<Rightarrow> nat \<times> nat \<Rightarrow> path option \<Rightarrow> bool" where
  "arrival g i j pre e =
     (case e of
        None \<Rightarrow> \<not> reach g pre
      | Some p \<Rightarrow>
          wf_path g p \<and> end_pos (0, 0) (moves p) = (i, j)
          \<and> (\<forall>ds. valid_path g ds \<and> end_pos (0, 0) ds = pre
                \<longrightarrow> path_gold g ds + cell_gold (get g i j) \<le> total_gold p))"

text \<open>Cell \<open>(i', j')\<close> comes before \<open>(i, j)\<close> in row-major order.\<close>

definition done_before :: "nat \<Rightarrow> nat \<Rightarrow> nat \<Rightarrow> nat \<Rightarrow> bool" where
  "done_before i j i' j' = (i' < i \<or> (i' = i \<and> j' < j))"

text \<open>The table when the general cases reach cell \<open>(i, j)\<close>: the cells before it
  are optimal, the others are as initialised.\<close>

definition fill_inv :: "grid \<Rightarrow> nat \<Rightarrow> nat \<Rightarrow> table \<Rightarrow> bool" where
  "fill_inv g i j A =
     (table_dims g A \<and>
      (\<forall>i'<rows g. \<forall>j'<columns g.
         (done_before i j i' j' \<longrightarrow> opt_entry g i' j' (A ! i' ! j'))
         \<and> (\<not> done_before i j i' j' \<longrightarrow>
              A ! i' ! j' = (if i' = 0 \<and> j' = 0 then Some (path_init g) else None))))"

text \<open>The entry that lines 127-144 assign, as a value.\<close>

definition chosen :: "path option \<Rightarrow> path option \<Rightarrow> path option" where
  "chosen fa fl =
     (case fa of
        Some a \<Rightarrow> (case fl of Some l \<Rightarrow> if total_gold a > total_gold l then Some a else Some l
                    | None \<Rightarrow> Some a)
      | None \<Rightarrow> (case fl of Some l \<Rightarrow> Some l | None \<Rightarrow> None))"

text \<open>The post-processing scan when it reaches cell \<open>(i, j)\<close>: \<open>best\<close> is an entry
  of the table with at least the gold of every entry before \<open>(i, j)\<close>.\<close>

definition post_inv :: "grid \<Rightarrow> table \<Rightarrow> nat \<Rightarrow> nat \<Rightarrow> path option \<Rightarrow> bool" where
  "post_inv g A i j best =
     (\<exists>b. best = Some b
        \<and> (\<exists>i'<rows g. \<exists>j'<columns g. A ! i' ! j' = Some b)
        \<and> (\<forall>i'<rows g. \<forall>j'<columns g. done_before i j i' j'
              \<longrightarrow> (\<forall>p. A ! i' ! j' = Some p \<longrightarrow> total_gold p \<le> total_gold b)))"

text \<open>The table when the general cases reach cell \<open>(i, j)\<close> on a grid whose
  start cell is ROCK: every entry is absent, except \<open>A[0][0]\<close> until cell (0,0) has
  been processed.\<close>

definition rock_inv :: "grid \<Rightarrow> nat \<Rightarrow> nat \<Rightarrow> table \<Rightarrow> bool" where
  "rock_inv g i j A =
     (table_dims g A \<and>
      (\<forall>i'<rows g. \<forall>j'<columns g.
         A ! i' ! j' = (if \<not> done_before i j i' j' \<and> i' = 0 \<and> j' = 0
                        then Some (path_init g) else None)))"

section \<open>Example grids and tables\<close>

text \<open>The 2 x 2 grid with gold values 1 2 / 3 4.\<close>

definition grid_2x2 :: grid where
  "grid_2x2 =
     \<lparr> rows = 2, columns = 2,
       get = (\<lambda>i j. CELL_OPEN (if i = 0 then (if j = 0 then 1 else 2)
                                else (if j = 0 then 3 else 4))) \<rparr>"

text \<open>The 2 x 2 grid with gold values 1 2 / 2 4: both routes to the far corner
  collect 7.\<close>

definition grid_tie :: grid where
  "grid_tie =
     \<lparr> rows = 2, columns = 2,
       get = (\<lambda>i j. CELL_OPEN (if i = 0 then (if j = 0 then 1 else 2)
                                else (if j = 0 then 2 else 4))) \<rparr>"

text \<open>One row, two cells: gold 3 at the start and an empty cell to its right.\<close>

definition grid_flat :: grid where
  "grid_flat =
     \<lparr> rows = 1, columns = 2,
       get = (\<lambda>i j. CELL_OPEN (if j = 0 then 3 else 0)) \<rparr>"

text \<open>One row, two cells: a ROCK start cell and gold 5 to its right.\<close>

definition grid_rock_start :: grid where
  "grid_rock_start =
     \<lparr> rows = 1, columns = 2,
       get = (\<lambda>i j. if j = 0 then CELL_ROCK else CELL_OPEN 5) \<rparr>"

text \<open>The single ROCK cell.\<close>

definition grid_rock :: grid where
  "grid_rock = \<lparr> rows = 1, columns = 1, get = (\<lambda>i j. CELL_ROCK) \<rparr>"

text \<open>One row of 66 empty cells: 65 moves at most.\<close>

definition grid_long :: grid where
  "grid_long = \<lparr> rows = 1, columns = 66, get = (\<lambda>i j. CELL_OPEN 0) \<rparr>"

text \<open>The table of \<open>grid_tie\<close> when the general cases reach cell (1,1).\<close>

definition table_tie :: table where
  "table_tie =
     [[Some \<lparr>cur_row = 0, cur_column = 0, moves = [], gold = 1\<rparr>,
       Some \<lparr>cur_row = 0, cur_column = 1, moves = [STEP_DIRECTION_RIGHT], gold = 3\<rparr>],
      [Some \<lparr>cur_row = 1, cur_column = 0, moves = [STEP_DIRECTION_DOWN], gold = 3\<rparr>,
       None]]"

text \<open>A grid with no cell.\<close>

definition grid_empty :: grid where
  "grid_empty = \<lparr> rows = 0, columns = 0, get = (\<lambda>i j. CELL_OPEN 0) \<rparr>"

section \<open>The loop rule\<close>

text \<open>A loop whose body keeps an invariant and never aborts returns a state that
  satisfies the invariant at the upper bound.\<close>

lemma for_loop_rule:
  assumes "I lo s" and "lo \<le> hi"
    and "\<And>i s. lo \<le> i \<Longrightarrow> i < hi \<Longrightarrow> I i s \<Longrightarrow> \<exists>s'. body i s = Inr s' \<and> I (Suc i) s'"
  shows "\<exists>s'. for_loop lo hi body s = Inr s' \<and> I hi s'"
  using assms
proof (induction "hi - lo" arbitrary: lo s)
  case 0
  then have "lo = hi" by simp
  with 0 show ?case by (simp add: for_loop.simps)
next
  case (Suc n)
  then have lt: "lo < hi" by simp
  from Suc.prems(3)[OF le_refl lt Suc.prems(1)]
  obtain s1 where s1: "body lo s = Inr s1" "I (Suc lo) s1" by blast
  have "\<exists>s'. for_loop (Suc lo) hi body s1 = Inr s' \<and> I hi s'"
  proof (rule Suc.hyps(1))
    show "n = hi - Suc lo" using Suc.hyps(2) by simp
    show "I (Suc lo) s1" by (rule s1)
    show "Suc lo \<le> hi" using lt by simp
    fix i s assume "Suc lo \<le> i" "i < hi" "I i s"
    then show "\<exists>s'. body i s = Inr s' \<and> I (Suc i) s'"
      using Suc.prems(3)[of i s] by simp
  qed
  then show ?case using lt s1 by (subst for_loop.simps) simp
qed

section \<open>Paths\<close>

lemma end_pos_append: "end_pos pos (xs @ ys) = end_pos (end_pos pos xs) ys"
  by (induction xs arbitrary: pos) auto

lemma visited_append:
  "visited pos (xs @ [d]) = visited pos xs @ [move_pos d (end_pos pos xs)]"
  by (induction xs arbitrary: pos) auto

lemma valid_from_append:
  "valid_from g pos (xs @ ys) = (valid_from g pos xs \<and> valid_from g (end_pos pos xs) ys)"
  by (induction xs arbitrary: pos) auto

lemma path_gold_Nil: "path_gold g [] = cell_gold (get g 0 0)"
  by (simp add: path_gold_def cells_gold_def)

lemma path_gold_snoc:
  "path_gold g (ds @ [d]) =
     path_gold g ds + cell_gold (get g (fst (move_pos d (end_pos (0, 0) ds)))
                                      (snd (move_pos d (end_pos (0, 0) ds))))"
  by (simp add: path_gold_def cells_gold_def visited_append)

lemma path_gold_ge_start: "cell_gold (get g 0 0) \<le> path_gold g ds"
  by (cases ds) (simp_all add: path_gold_def cells_gold_def)

lemma path_of_Nil: "path_of g [] = path_init g"
  by (simp add: path_of_def path_init_def path_gold_Nil)

lemma wf_path_init: "wf_path g (path_init g)"
  by (simp add: wf_path_def valid_path_def path_of_Nil [symmetric] path_of_def)

lemma wf_path_of: "valid_path g ds \<Longrightarrow> wf_path g (path_of g ds)"
  by (simp add: wf_path_def path_of_def)

lemma valid_path_snoc:
  "valid_path g (ds @ [d]) =
     (valid_path g ds \<and> d \<noteq> STEP_DIRECTION_START \<and> may_step g (move_pos d (end_pos (0, 0) ds)))"
  by (auto simp: valid_path_def valid_from_append)

lemma is_step_valid_path_of:
  "is_step_valid g (path_of g ds) d =
     (d \<noteq> STEP_DIRECTION_START \<and> may_step g (move_pos d (end_pos (0, 0) ds)))"
  by (simp add: is_step_valid_def path_of_def)

lemma add_step_path_of:
  "is_step_valid g (path_of g ds) d \<Longrightarrow> add_step g (path_of g ds) d = Inr (path_of g (ds @ [d]))"
  by (simp add: add_step_def Let_def path_of_def end_pos_append path_gold_snoc)

lemma add_step_wf:
  assumes "wf_path g p" and "is_step_valid g p d"
  shows "add_step g p d = Inr (path_of g (moves p @ [d])) \<and> valid_path g (moves p @ [d])"
proof -
  from assms(1) have p: "p = path_of g (moves p)" and v: "valid_path g (moves p)"
    by (simp_all add: wf_path_def)
  from assms(2) p have sv: "is_step_valid g (path_of g (moves p)) d" by simp
  then have "add_step g (path_of g (moves p)) d = Inr (path_of g (moves p @ [d]))"
    by (rule add_step_path_of)
  moreover have "valid_path g (moves p @ [d])"
    using sv v by (simp add: valid_path_snoc is_step_valid_path_of)
  ultimately show ?thesis using p by simp
qed

section \<open>Exhaustive search: every valid path is a candidate\<close>

lemma exhaustive_step_wf:
  assumes "wf_path g c"
  shows "\<exists>c'. exhaustive_step g bits k c = Inr c' \<and> wf_path g c'"
  using assms add_step_wf[OF assms] wf_path_of
  by (auto simp: exhaustive_step_def Let_def)

text \<open>Whatever the bits, a candidate is a valid path: an invalid move is skipped.\<close>

lemma exhaustive_candidate_wf:
  "\<exists>c. exhaustive_candidate g len bits = Inr c \<and> wf_path g c"
  unfolding exhaustive_candidate_def
  by (rule for_loop_rule[where I = "\<lambda>_. wf_path g"]) (simp_all add: wf_path_init exhaustive_step_wf)

text \<open>A valid path \<open>ds\<close> is the candidate decoded from \<open>encode ds\<close> at length
  \<open>length ds\<close>, and no valid path is longer than \<open>rows + columns - 2\<close>.\<close>

lemma encode_less: "encode ds < 2 ^ length ds"
  by (induction ds) auto

lemma encode_bit:
  "k < length ds \<Longrightarrow> (drop_bit k (encode ds) AND 1 = 1) = (ds ! k = STEP_DIRECTION_RIGHT)"
proof (induction ds arbitrary: k)
  case Nil
  then show ?case by simp
next
  case (Cons d ds)
  show ?case
  proof (cases k)
    case 0
    then show ?thesis by (simp add: and_one_eq)
  next
    case (Suc m)
    with Cons.prems have "m < length ds" by simp
    from Cons.IH[OF this] Suc show ?thesis by (simp add: drop_bit_Suc)
  qed
qed

lemma valid_from_coords:
  "valid_from g pos ds \<Longrightarrow>
     fst (end_pos pos ds) + snd (end_pos pos ds) = fst pos + snd pos + length ds"
proof (induction ds arbitrary: pos)
  case Nil
  then show ?case by simp
next
  case (Cons d ds)
  then show ?case by (cases d; cases pos) auto
qed

lemma valid_from_end:
  "valid_from g pos ds \<Longrightarrow> ds \<noteq> [] \<Longrightarrow> may_step g (end_pos pos ds)"
proof (induction ds arbitrary: pos)
  case Nil
  then show ?case by simp
next
  case (Cons d ds)
  then show ?case by (cases ds) auto
qed

lemma valid_path_length:
  assumes "valid_path g ds" and "0 < rows g" and "0 < columns g"
  shows "length ds \<le> rows g + columns g - 2"
proof (cases "ds = []")
  case True
  then show ?thesis by simp
next
  case False
  from assms(1) have v: "valid_from g (0, 0) ds" by (simp add: valid_path_def)
  from valid_from_end[OF v False]
  have "fst (end_pos (0, 0) ds) < rows g" "snd (end_pos (0, 0) ds) < columns g"
    by (simp_all add: may_step_def)
  moreover from valid_from_coords[OF v]
  have "fst (end_pos (0, 0) ds) + snd (end_pos (0, 0) ds) = length ds" by simp
  ultimately show ?thesis by linarith
qed

lemma valid_path_take: "valid_path g ds \<Longrightarrow> valid_path g (take k ds)"
  using valid_from_append[of g "(0, 0)" "take k ds" "drop k ds"]
  by (simp add: valid_path_def)

lemma exhaustive_step_encode:
  assumes v: "valid_path g ds" and k: "k < length ds"
  shows "exhaustive_step g (encode ds) k (path_of g (take k ds)) = Inr (path_of g (take (Suc k) ds))"
proof -
  have tk: "take (Suc k) ds = take k ds @ [ds ! k]"
    using k by (simp add: take_Suc_conv_app_nth)
  from valid_path_take[OF v, of "Suc k"]
  have "valid_path g (take k ds @ [ds ! k])" by (simp add: tk)
  then have sv: "is_step_valid g (path_of g (take k ds)) (ds ! k)"
    by (simp add: valid_path_snoc is_step_valid_path_of)
  then have ns: "ds ! k \<noteq> STEP_DIRECTION_START" by (simp add: is_step_valid_def)
  show ?thesis
  proof (cases "ds ! k = STEP_DIRECTION_RIGHT")
    case True
    with sv show ?thesis
      using encode_bit[OF k] add_step_path_of[OF sv]
      by (simp add: exhaustive_step_def tk)
  next
    case False
    with ns have d: "ds ! k = STEP_DIRECTION_DOWN" by (cases "ds ! k") auto
    with sv False show ?thesis
      using encode_bit[OF k] add_step_path_of[OF sv]
      by (simp add: exhaustive_step_def tk)
  qed
qed

lemma exhaustive_candidate_encode:
  assumes "valid_path g ds"
  shows "exhaustive_candidate g (length ds) (encode ds) = Inr (path_of g ds)"
proof -
  have "\<exists>c. for_loop 0 (length ds) (exhaustive_step g (encode ds)) (path_init g) = Inr c
            \<and> c = path_of g (take (length ds) ds)"
    by (rule for_loop_rule[where I = "\<lambda>k c. c = path_of g (take k ds)"])
       (simp_all add: path_of_Nil exhaustive_step_encode[OF assms])
  then show ?thesis by (simp add: exhaustive_candidate_def)
qed

text \<open>The comparison of line 71 never lowers the gold of \<open>best\<close>: a best without
  moves has the gold of the start cell, which every candidate has as well.\<close>

lemma wf_path_gold: "wf_path g p \<Longrightarrow> total_gold p = path_gold g (moves p)"
  by (simp add: wf_path_def total_gold_def path_of_def) (metis path.select_convs(4))

lemma wf_path_start_gold:
  "wf_path g p \<Longrightarrow> last_step p = STEP_DIRECTION_START \<Longrightarrow> total_gold p = cell_gold (get g 0 0)"
proof -
  assume wf: "wf_path g p" and ls: "last_step p = STEP_DIRECTION_START"
  have "moves p = []"
  proof (rule ccontr)
    assume ne: "moves p \<noteq> []"
    then have "moves p = butlast (moves p) @ [last (moves p)]" by simp
    moreover from wf have "valid_path g (moves p)" by (simp add: wf_path_def)
    ultimately have "valid_path g (butlast (moves p) @ [last (moves p)])" by simp
    then have "last (moves p) \<noteq> STEP_DIRECTION_START" by (simp add: valid_path_snoc)
    with ls ne show False by (simp add: last_step_def)
  qed
  with wf_path_gold[OF wf] show ?thesis by (simp add: path_gold_Nil)
qed

lemma exhaustive_bits_dominates:
  assumes "dominates g best S"
  shows "\<exists>best'. exhaustive_bits g len bits best = Inr best'
           \<and> dominates g best' (\<lambda>ds. S ds \<or> (length ds = len \<and> encode ds = bits))"
proof -
  from exhaustive_candidate_wf obtain c where
    c: "exhaustive_candidate g len bits = Inr c" and wfc: "wf_path g c" by blast
  from assms have wfb: "wf_path g best"
    and dom: "\<And>ds. valid_path g ds \<Longrightarrow> S ds \<Longrightarrow> path_gold g ds \<le> total_gold best"
    by (simp_all add: dominates_def)
  define best' where "best' = (if last_step best = STEP_DIRECTION_START
                  \<or> total_gold c > total_gold best then c else best)"
  have eq: "exhaustive_bits g len bits best = Inr best'"
    by (simp add: exhaustive_bits_def c best'_def)
  have wf': "wf_path g best'" using wfb wfc by (simp add: best'_def)
  have start_le: "cell_gold (get g 0 0) \<le> total_gold c"
    using wf_path_gold[OF wfc] path_gold_ge_start[of g "moves c"] by simp
  have ge_best: "total_gold best \<le> total_gold best'"
    using wf_path_start_gold[OF wfb] start_le by (auto simp: best'_def)
  have ge_c: "total_gold c \<le> total_gold best'"
    by (auto simp: best'_def)
  have "path_gold g ds \<le> total_gold best'"
    if v: "valid_path g ds" and s: "S ds \<or> (length ds = len \<and> encode ds = bits)" for ds
  proof (cases "S ds")
    case True
    from dom[OF v True] ge_best show ?thesis by simp
  next
    case False
    with s have "length ds = len" "encode ds = bits" by simp_all
    with exhaustive_candidate_encode[OF v] c have "c = path_of g ds" by simp
    then have "total_gold c = path_gold g ds" by (simp add: total_gold_def path_of_def)
    with ge_c show ?thesis by simp
  qed
  with wf' eq show ?thesis by (auto simp: dominates_def)
qed

lemma bits_bound_ge: "2 ^ len \<le> bits_bound len"
  by (simp add: bits_bound_def)

lemma exhaustive_len_dominates:
  assumes "dominates g best (\<lambda>ds. length ds < len)"
  shows "\<exists>best'. exhaustive_len g len best = Inr best'
           \<and> dominates g best' (\<lambda>ds. length ds < Suc len)"
proof -
  have "\<exists>best'. for_loop 0 (bits_bound len) (exhaustive_bits g len) best = Inr best'
          \<and> dominates g best' (\<lambda>ds. length ds < len \<or> (length ds = len \<and> encode ds < bits_bound len))"
  proof (rule for_loop_rule[where I = "\<lambda>bits b. dominates g b
            (\<lambda>ds. length ds < len \<or> (length ds = len \<and> encode ds < bits))"])
    show "dominates g best (\<lambda>ds. length ds < len \<or> length ds = len \<and> encode ds < 0)"
      using assms by simp
    show "0 \<le> bits_bound len" by simp
    fix bits b
    assume "dominates g b (\<lambda>ds. length ds < len \<or> length ds = len \<and> encode ds < bits)"
    from exhaustive_bits_dominates[OF this, of len bits]
    obtain b' where b': "exhaustive_bits g len bits b = Inr b'"
      "dominates g b' (\<lambda>ds. (length ds < len \<or> length ds = len \<and> encode ds < bits)
                             \<or> length ds = len \<and> encode ds = bits)" by blast
    have "dominates g b' (\<lambda>ds. length ds < len \<or> length ds = len \<and> encode ds < Suc bits)"
      using b'(2) unfolding dominates_def by (auto simp: less_Suc_eq)
    with b'(1) show "\<exists>s'. exhaustive_bits g len bits b = Inr s' \<and>
            dominates g s' (\<lambda>ds. length ds < len \<or> length ds = len \<and> encode ds < Suc bits)"
      by blast
  qed
  then obtain best' where
    r: "for_loop 0 (bits_bound len) (exhaustive_bits g len) best = Inr best'" and
    d: "dominates g best' (\<lambda>ds. length ds < len \<or> (length ds = len \<and> encode ds < bits_bound len))"
    by blast
  have "encode ds < bits_bound len" if "length ds = len" for ds
    using encode_less[of ds] bits_bound_ge[of len] that by simp
  with d have "dominates g best' (\<lambda>ds. length ds < Suc len)"
    unfolding dominates_def by (auto simp: less_Suc_eq)
  with r show ?thesis by (auto simp: exhaustive_len_def)
qed

lemma exhaustive_loops_dominate:
  "\<exists>best. for_loop 0 (Suc n) (exhaustive_len g) (path_init g) = Inr best
      \<and> dominates g best (\<lambda>ds. length ds < Suc n)"
  by (rule for_loop_rule[where I = "\<lambda>len b. dominates g b (\<lambda>ds. length ds < len)"])
     (simp_all add: dominates_def wf_path_init exhaustive_len_dominates[unfolded dominates_def])

text \<open>Under its three assertions the exhaustive search returns a valid path that
  no valid path beats.\<close>

lemma exhaustive_optimal:
  assumes "0 < rows g" and "0 < columns g" and "rows g + columns g - 2 < 64"
  shows "\<exists>best. greedy_gnomes_exhaustive g = Inr best \<and> wf_path g best
           \<and> (\<forall>ds. valid_path g ds \<longrightarrow> path_gold g ds \<le> total_gold best)"
proof -
  from exhaustive_loops_dominate[of "rows g + columns g - 2" g]
  obtain best where
    r: "for_loop 0 (Suc (rows g + columns g - 2)) (exhaustive_len g) (path_init g) = Inr best"
    and d: "dominates g best (\<lambda>ds. length ds < Suc (rows g + columns g - 2))"
    by blast
  have "length ds < Suc (rows g + columns g - 2)" if "valid_path g ds" for ds
    using valid_path_length[OF that assms(1,2)] by simp
  with d have "wf_path g best \<and> (\<forall>ds. valid_path g ds \<longrightarrow> path_gold g ds \<le> total_gold best)"
    by (auto simp: dominates_def)
  with r assms show ?thesis
    by (auto simp: greedy_gnomes_exhaustive_def Let_def)
qed

section \<open>Dynamic programming: heads of the table entries\<close>

lemma table_set_dims: "table_dims g A \<Longrightarrow> table_dims g (table_set A i j v)"
  by (cases "i < length A") (auto simp: table_dims_def table_set_def nth_list_update)

lemma table_set_nth:
  assumes "table_dims g A" and "i < rows g" and "j < columns g"
    and "i' < rows g" and "j' < columns g"
  shows "table_set A i j v ! i' ! j' = (if i' = i \<and> j' = j then v else A ! i' ! j')"
  using assms by (auto simp: table_dims_def table_set_def nth_list_update)

lemma dp_init_dims: "table_dims g (dp_init g)"
  unfolding dp_init_def
  by (rule table_set_dims) (simp add: table_dims_def)

lemma dp_init_nth:
  assumes "i < rows g" and "j < columns g"
  shows "dp_init g ! i ! j = (if i = 0 \<and> j = 0 then Some (path_init g) else None)"
proof -
  let ?E = "replicate (rows g) (replicate (columns g) None) :: table"
  have d: "table_dims g ?E" by (simp add: table_dims_def)
  have r: "0 < rows g" "0 < columns g" using assms by auto
  show ?thesis
    unfolding dp_init_def table_set_nth[OF d r assms]
    using assms by simp
qed

lemma add_step_head:
  assumes "is_step_valid g p d"
  shows "\<exists>p'. add_step g p d = Inr p'
           \<and> (cur_row p', cur_column p') = move_pos d (cur_row p, cur_column p)
           \<and> moves p' = moves p @ [d]
           \<and> total_gold p' = total_gold p
                + cell_gold (get g (fst (move_pos d (cur_row p, cur_column p)))
                                   (snd (move_pos d (cur_row p, cur_column p))))"
  using assms by (simp add: add_step_def Let_def total_gold_def)

lemma from_above_head:
  assumes h: "heads_ok g A" and i: "i < rows g" and j: "j < columns g"
    and nr: "get g i j \<noteq> CELL_ROCK" and i0: "0 < i" and a: "A ! (i - 1) ! j = Some p"
  shows "is_step_valid g p STEP_DIRECTION_DOWN
         \<and> (\<exists>p'. add_step g p STEP_DIRECTION_DOWN = Inr p'
                \<and> from_above g A i j = Inr (Some p')
                \<and> cur_row p' = i \<and> cur_column p' = j)"
proof -
  have "i - 1 < rows g" using i by simp
  with h j a have hd: "cur_row p = i - 1" "cur_column p = j"
    unfolding heads_ok_def by blast+
  have sv: "is_step_valid g p STEP_DIRECTION_DOWN"
    using hd i j nr i0 by (simp add: is_step_valid_def may_step_def)
  from add_step_head[OF sv] obtain p' where
    p': "add_step g p STEP_DIRECTION_DOWN = Inr p'"
        "(cur_row p', cur_column p') = move_pos STEP_DIRECTION_DOWN (cur_row p, cur_column p)"
    by blast
  have "from_above g A i j = Inr (Some p')"
    using i0 a sv p'(1) by (simp add: from_above_def)
  with sv p' hd i0 show ?thesis by simp
qed

lemma from_left_head:
  assumes h: "heads_ok g A" and i: "i < rows g" and j: "j < columns g"
    and nr: "get g i j \<noteq> CELL_ROCK" and j0: "0 < j" and a: "A ! i ! (j - 1) = Some p"
  shows "is_step_valid g p STEP_DIRECTION_RIGHT
         \<and> (\<exists>p'. add_step g p STEP_DIRECTION_RIGHT = Inr p'
                \<and> from_left g A i j = Inr (Some p')
                \<and> cur_row p' = i \<and> cur_column p' = j)"
proof -
  have "j - 1 < columns g" using j by simp
  with h i a have hd: "cur_row p = i" "cur_column p = j - 1"
    unfolding heads_ok_def by blast+
  have sv: "is_step_valid g p STEP_DIRECTION_RIGHT"
    using hd i j nr j0 by (simp add: is_step_valid_def may_step_def)
  from add_step_head[OF sv] obtain p' where
    p': "add_step g p STEP_DIRECTION_RIGHT = Inr p'"
        "(cur_row p', cur_column p') = move_pos STEP_DIRECTION_RIGHT (cur_row p, cur_column p)"
    by blast
  have "from_left g A i j = Inr (Some p')"
    using j0 a sv p'(1) by (simp add: from_left_def)
  with sv p' hd j0 show ?thesis by simp
qed

lemma from_above_result:
  assumes h: "heads_ok g A" and i: "i < rows g" and j: "j < columns g"
    and nr: "get g i j \<noteq> CELL_ROCK"
  shows "\<exists>fa. from_above g A i j = Inr fa
           \<and> (\<forall>a. fa = Some a \<longrightarrow> cur_row a = i \<and> cur_column a = j)"
proof (cases "0 < i \<and> A ! (i - 1) ! j \<noteq> None")
  case True
  then obtain p where "0 < i" "A ! (i - 1) ! j = Some p" by auto
  from from_above_head[OF h i j nr this] show ?thesis by auto
next
  case False
  then have "from_above g A i j = Inr None" by (auto simp: from_above_def)
  then show ?thesis by simp
qed

lemma from_left_result:
  assumes h: "heads_ok g A" and i: "i < rows g" and j: "j < columns g"
    and nr: "get g i j \<noteq> CELL_ROCK"
  shows "\<exists>fl. from_left g A i j = Inr fl
           \<and> (\<forall>a. fl = Some a \<longrightarrow> cur_row a = i \<and> cur_column a = j)"
proof (cases "0 < j \<and> A ! i ! (j - 1) \<noteq> None")
  case True
  then obtain p where "0 < j" "A ! i ! (j - 1) = Some p" by auto
  from from_left_head[OF h i j nr this] show ?thesis by auto
next
  case False
  then have "from_left g A i j = Inr None" by (auto simp: from_left_def)
  then show ?thesis by simp
qed

lemma dp_choose_nth:
  assumes "table_dims g A" and "i < rows g" and "j < columns g"
  shows "dp_choose A i j fa fl ! i ! j =
     (case fa of
        Some a \<Rightarrow> (case fl of Some l \<Rightarrow> if total_gold a > total_gold l then Some a else Some l
                    | None \<Rightarrow> Some a)
      | None \<Rightarrow> (case fl of Some l \<Rightarrow> Some l | None \<Rightarrow> A ! i ! j))"
  using table_set_nth[OF assms assms(2,3)]
  by (simp add: dp_choose_def split: option.splits)

lemma dp_choose_other:
  assumes "table_dims g A" and "i < rows g" and "j < columns g"
    and "i' < rows g" and "j' < columns g" and "\<not> (i' = i \<and> j' = j)"
  shows "dp_choose A i j fa fl ! i' ! j' = A ! i' ! j'"
  using table_set_nth[OF assms(1-5)] assms(6)
  by (simp add: dp_choose_def split: option.splits)

lemma dp_choose_dims: "table_dims g A \<Longrightarrow> table_dims g (dp_choose A i j fa fl)"
  by (simp add: dp_choose_def table_set_dims split: option.splits)

lemma dp_cell_heads:
  assumes h: "heads_ok g A" and i: "i < rows g" and j: "j < columns g"
  shows "\<exists>A'. dp_cell g i j A = Inr A' \<and> heads_ok g A'"
proof (cases "get g i j = CELL_ROCK")
  case True
  from h have d: "table_dims g A" by (simp add: heads_ok_def)
  have "heads_ok g (table_set A i j None)"
    unfolding heads_ok_def
  proof (intro conjI allI impI)
    show "table_dims g (table_set A i j None)" by (rule table_set_dims[OF d])
  next
    fix i' j' p assume b: "i' < rows g" "j' < columns g"
      and s: "table_set A i j None ! i' ! j' = Some p"
    from s have "A ! i' ! j' = Some p" "\<not> (i' = i \<and> j' = j)"
      unfolding table_set_nth[OF d i j b] by (auto split: if_splits)
    with h b show "cur_row p = i'" "cur_column p = j'" by (auto simp: heads_ok_def)
  qed
  with True show ?thesis by (simp add: dp_cell_def)
next
  case False
  from h have d: "table_dims g A" by (simp add: heads_ok_def)
  from from_above_result[OF h i j False] obtain fa where
    fa: "from_above g A i j = Inr fa" "\<And>a. fa = Some a \<Longrightarrow> cur_row a = i \<and> cur_column a = j"
    by blast
  from from_left_result[OF h i j False] obtain fl where
    fl: "from_left g A i j = Inr fl" "\<And>a. fl = Some a \<Longrightarrow> cur_row a = i \<and> cur_column a = j"
    by blast
  have eq: "dp_cell g i j A = Inr (dp_choose A i j fa fl)"
    using False fa(1) fl(1) by (simp add: dp_cell_def)
  have "heads_ok g (dp_choose A i j fa fl)"
    unfolding heads_ok_def
  proof (intro conjI allI impI)
    show "table_dims g (dp_choose A i j fa fl)" by (rule dp_choose_dims[OF d])
  next
    fix i' j' p assume b: "i' < rows g" "j' < columns g"
      and s: "dp_choose A i j fa fl ! i' ! j' = Some p"
    have "cur_row p = i' \<and> cur_column p = j'"
    proof (cases "i' = i \<and> j' = j")
      case True
      with s have "dp_choose A i j fa fl ! i ! j = Some p" by simp
      then have "fa = Some p \<or> fl = Some p \<or> A ! i ! j = Some p"
        unfolding dp_choose_nth[OF d i j] by (auto split: option.splits if_splits)
      with fa(2) fl(2) h i j True show ?thesis by (auto simp: heads_ok_def)
    next
      case False
      with s have "A ! i' ! j' = Some p"
        using dp_choose_other[OF d i j b] by simp
      with h b show ?thesis by (auto simp: heads_ok_def)
    qed
    then show "cur_row p = i'" "cur_column p = j'" by simp_all
  qed
  with eq show ?thesis by simp
qed

lemma dp_init_heads: "heads_ok g (dp_init g)"
  unfolding heads_ok_def
  by (auto simp: dp_init_dims dp_init_nth path_init_def)

lemma dp_row_heads:
  assumes "heads_ok g A" and "i < rows g" and "0 < columns g"
  shows "\<exists>A'. dp_row g i A = Inr A' \<and> heads_ok g A'"
  unfolding dp_row_def
  by (rule for_loop_rule[where I = "\<lambda>_. heads_ok g"])
     (use assms in \<open>simp_all add: dp_cell_heads\<close>)

lemma dp_fill_heads:
  assumes "0 < rows g" and "0 < columns g"
  shows "\<exists>A. dp_fill g = Inr A \<and> heads_ok g A"
  unfolding dp_fill_def
  by (rule for_loop_rule[where I = "\<lambda>_. heads_ok g"])
     (use assms in \<open>simp_all add: dp_init_heads dp_row_heads\<close>)

section \<open>Dynamic programming: optimal entries\<close>

lemma valid_path_origin:
  assumes "valid_path g ds" and "end_pos (0, 0) ds = (0, 0)"
  shows "ds = []"
  using valid_from_coords[of g "(0, 0)" ds] assms by (simp add: valid_path_def)

text \<open>A valid path to a cell other than (0,0) arrives from above or from the left.\<close>

lemma valid_path_last:
  assumes v: "valid_path g ds" and e: "end_pos (0, 0) ds = (i, j)" and n: "(i, j) \<noteq> (0, 0)"
  shows "\<exists>ds' d. ds = ds' @ [d] \<and> valid_path g ds' \<and> may_step g (i, j)
           \<and> path_gold g ds = path_gold g ds' + cell_gold (get g i j)
           \<and> ((d = STEP_DIRECTION_DOWN \<and> 0 < i \<and> end_pos (0, 0) ds' = (i - 1, j))
              \<or> (d = STEP_DIRECTION_RIGHT \<and> 0 < j \<and> end_pos (0, 0) ds' = (i, j - 1)))"
proof -
  from e n have ne: "ds \<noteq> []" by auto
  define ds' where "ds' = butlast ds"
  define d where "d = last ds"
  have ds: "ds = ds' @ [d]" using ne by (simp add: ds'_def d_def)
  from v have v': "valid_path g ds'" and ns: "d \<noteq> STEP_DIRECTION_START"
    and ms: "may_step g (move_pos d (end_pos (0, 0) ds'))"
    by (simp_all add: ds valid_path_snoc)
  from e have m: "move_pos d (end_pos (0, 0) ds') = (i, j)"
    by (simp add: ds end_pos_append)
  have pg: "path_gold g ds = path_gold g ds' + cell_gold (get g i j)"
    by (simp add: ds path_gold_snoc m)
  obtain r c where rc: "end_pos (0, 0) ds' = (r, c)" by (cases "end_pos (0, 0) ds'")
  have "(d = STEP_DIRECTION_DOWN \<and> 0 < i \<and> end_pos (0, 0) ds' = (i - 1, j))
        \<or> (d = STEP_DIRECTION_RIGHT \<and> 0 < j \<and> end_pos (0, 0) ds' = (i, j - 1))"
    using ns m rc by (cases d) auto
  with ds v' ms m pg show ?thesis by auto
qed

lemma wf_path_head:
  assumes "wf_path g p"
  shows "(cur_row p, cur_column p) = end_pos (0, 0) (moves p)"
proof -
  from assms have p: "p = path_of g (moves p)" by (simp add: wf_path_def)
  note arg_cong[OF p, of cur_row] arg_cong[OF p, of cur_column]
  then show ?thesis by (simp add: path_of_def)
qed

lemma extend_wf:
  assumes wf: "wf_path g p" and e: "end_pos (0, 0) (moves p) = pre"
    and m: "move_pos d pre = (i, j)" and ns: "d \<noteq> STEP_DIRECTION_START"
    and ms: "may_step g (i, j)"
  shows "is_step_valid g p d
         \<and> (\<exists>p'. add_step g p d = Inr p' \<and> wf_path g p'
                \<and> end_pos (0, 0) (moves p') = (i, j)
                \<and> total_gold p' = total_gold p + cell_gold (get g i j))"
proof -
  from wf_path_head[OF wf] e have hd: "(cur_row p, cur_column p) = pre" by simp
  have sv: "is_step_valid g p d"
    using hd m ns ms by (simp add: is_step_valid_def)
  from add_step_wf[OF wf sv]
  have a: "add_step g p d = Inr (path_of g (moves p @ [d]))"
    and v: "valid_path g (moves p @ [d])" by simp_all
  have "wf_path g (path_of g (moves p @ [d]))" by (rule wf_path_of[OF v])
  moreover have "end_pos (0, 0) (moves (path_of g (moves p @ [d]))) = (i, j)"
    using e m by (simp add: path_of_def end_pos_append)
  moreover have "total_gold (path_of g (moves p @ [d])) = total_gold p + cell_gold (get g i j)"
    using wf_path_gold[OF wf] e m
    by (simp add: total_gold_def path_of_def path_gold_snoc)
  ultimately show ?thesis using sv a by blast
qed

lemma arrival_extend:
  assumes o: "opt_entry g i' j' (Some p)" and m: "move_pos d (i', j') = (i, j)"
    and ns: "d \<noteq> STEP_DIRECTION_START" and ms: "may_step g (i, j)"
  shows "is_step_valid g p d \<and> (\<exists>p'. add_step g p d = Inr p' \<and> arrival g i j (i', j') (Some p'))"
proof -
  from o have wf: "wf_path g p" and e: "end_pos (0, 0) (moves p) = (i', j')"
    and b: "\<And>ds. valid_path g ds \<Longrightarrow> end_pos (0, 0) ds = (i', j')
               \<Longrightarrow> path_gold g ds \<le> total_gold p"
    by (simp_all add: opt_entry_def)
  from extend_wf[OF wf e m ns ms] obtain p' where
    sv: "is_step_valid g p d" and a: "add_step g p d = Inr p'" and wf': "wf_path g p'"
    and e': "end_pos (0, 0) (moves p') = (i, j)"
    and t: "total_gold p' = total_gold p + cell_gold (get g i j)" by blast
  have "arrival g i j (i', j') (Some p')"
    using wf' e' t b by (auto simp: arrival_def)
  with sv a show ?thesis by blast
qed

lemma from_above_arrival:
  assumes i0: "0 < i" and o: "opt_entry g (i - 1) j (A ! (i - 1) ! j)" and ms: "may_step g (i, j)"
  shows "\<exists>fa. from_above g A i j = Inr fa \<and> arrival g i j (i - 1, j) fa"
proof (cases "A ! (i - 1) ! j")
  case None
  with i0 o show ?thesis by (simp add: from_above_def opt_entry_def arrival_def)
next
  case (Some p)
  have m: "move_pos STEP_DIRECTION_DOWN (i - 1, j) = (i, j)" using i0 by simp
  from o Some have "opt_entry g (i - 1) j (Some p)" by simp
  from arrival_extend[OF this m _ ms] obtain p' where
    "is_step_valid g p STEP_DIRECTION_DOWN" "add_step g p STEP_DIRECTION_DOWN = Inr p'"
    "arrival g i j (i - 1, j) (Some p')" by auto
  with i0 Some show ?thesis by (simp add: from_above_def)
qed

lemma from_left_arrival:
  assumes j0: "0 < j" and o: "opt_entry g i (j - 1) (A ! i ! (j - 1))" and ms: "may_step g (i, j)"
  shows "\<exists>fl. from_left g A i j = Inr fl \<and> arrival g i j (i, j - 1) fl"
proof (cases "A ! i ! (j - 1)")
  case None
  with j0 o show ?thesis by (simp add: from_left_def opt_entry_def arrival_def)
next
  case (Some p)
  have m: "move_pos STEP_DIRECTION_RIGHT (i, j - 1) = (i, j)" using j0 by simp
  from o Some have "opt_entry g i (j - 1) (Some p)" by simp
  from arrival_extend[OF this m _ ms] obtain p' where
    "is_step_valid g p STEP_DIRECTION_RIGHT" "add_step g p STEP_DIRECTION_RIGHT = Inr p'"
    "arrival g i j (i, j - 1) (Some p')" by auto
  with j0 Some show ?thesis by (simp add: from_left_def)
qed

text \<open>The better of the two arrivals is an optimal entry for the cell.\<close>

lemma chosen_opt:
  assumes n: "(i, j) \<noteq> (0, 0)"
    and fa: "if 0 < i then arrival g i j (i - 1, j) fa else fa = None"
    and fl: "if 0 < j then arrival g i j (i, j - 1) fl else fl = None"
  shows "opt_entry g i j (chosen fa fl)"
proof -
  have cover: "\<exists>a. (fa = Some a \<or> fl = Some a) \<and> path_gold g ds \<le> total_gold a"
    if v: "valid_path g ds" and e: "end_pos (0, 0) ds = (i, j)" for ds
  proof -
    from valid_path_last[OF v e n] obtain ds' d where
      v': "valid_path g ds'" and pg: "path_gold g ds = path_gold g ds' + cell_gold (get g i j)"
      and c: "(d = STEP_DIRECTION_DOWN \<and> 0 < i \<and> end_pos (0, 0) ds' = (i - 1, j))
              \<or> (d = STEP_DIRECTION_RIGHT \<and> 0 < j \<and> end_pos (0, 0) ds' = (i, j - 1))"
      by blast
    from c show ?thesis
    proof
      assume d: "d = STEP_DIRECTION_DOWN \<and> 0 < i \<and> end_pos (0, 0) ds' = (i - 1, j)"
      with fa have ar: "arrival g i j (i - 1, j) fa" by simp
      from d v' have "reach g (i - 1, j)" by (auto simp: reach_def)
      with ar obtain a where "fa = Some a" by (cases fa) (auto simp: arrival_def)
      moreover with ar d v' have "path_gold g ds' + cell_gold (get g i j) \<le> total_gold a"
        by (simp add: arrival_def)
      ultimately show ?thesis using pg by auto
    next
      assume d: "d = STEP_DIRECTION_RIGHT \<and> 0 < j \<and> end_pos (0, 0) ds' = (i, j - 1)"
      with fl have ar: "arrival g i j (i, j - 1) fl" by simp
      from d v' have "reach g (i, j - 1)" by (auto simp: reach_def)
      with ar obtain a where "fl = Some a" by (cases fl) (auto simp: arrival_def)
      moreover with ar d v' have "path_gold g ds' + cell_gold (get g i j) \<le> total_gold a"
        by (simp add: arrival_def)
      ultimately show ?thesis using pg by auto
    qed
  qed
  have present: "wf_path g a \<and> end_pos (0, 0) (moves a) = (i, j)"
    if "fa = Some a \<or> fl = Some a" for a
    using that fa fl by (auto simp: arrival_def split: if_splits)
  show ?thesis
  proof (cases "chosen fa fl")
    case None
    then have "fa = None" "fl = None"
      by (auto simp: chosen_def split: option.splits if_splits)
    with cover have "\<not> reach g (i, j)" by (auto simp: reach_def)
    with None show ?thesis by (simp add: opt_entry_def)
  next
    case (Some c)
    then have mem: "fa = Some c \<or> fl = Some c"
      by (auto simp: chosen_def split: option.splits if_splits)
    have ge: "total_gold a \<le> total_gold c" if "fa = Some a \<or> fl = Some a" for a
      using that Some by (auto simp: chosen_def split: option.splits if_splits)
    have "path_gold g ds \<le> total_gold c"
      if "valid_path g ds" "end_pos (0, 0) ds = (i, j)" for ds
    proof -
      from cover[OF that] obtain a where
        a: "fa = Some a \<or> fl = Some a" "path_gold g ds \<le> total_gold a" by blast
      from ge[OF a(1)] a(2) show ?thesis by simp
    qed
    with present[OF mem] Some show ?thesis by (simp add: opt_entry_def)
  qed
qed

lemma dp_choose_chosen:
  assumes "table_dims g A" and "i < rows g" and "j < columns g" and "A ! i ! j = None"
  shows "dp_choose A i j fa fl ! i ! j = chosen fa fl"
  unfolding dp_choose_nth[OF assms(1-3)] chosen_def
  using assms(4) by (simp split: option.splits)

lemma done_before_Suc:
  "done_before i (Suc j) i' j' = (done_before i j i' j' \<or> (i' = i \<and> j' = j))"
  by (auto simp: done_before_def)

lemma fill_inv_step:
  assumes inv: "fill_inv g i j A" and d': "table_dims g A'"
    and new: "opt_entry g i j (A' ! i ! j)"
    and old: "\<And>i' j'. i' < rows g \<Longrightarrow> j' < columns g \<Longrightarrow> \<not> (i' = i \<and> j' = j)
                \<Longrightarrow> A' ! i' ! j' = A ! i' ! j'"
  shows "fill_inv g i (Suc j) A'"
  unfolding fill_inv_def
proof (intro conjI allI impI)
  show "table_dims g A'" by (rule d')
next
  fix i' j' assume b: "i' < rows g" "j' < columns g" and db: "done_before i (Suc j) i' j'"
  show "opt_entry g i' j' (A' ! i' ! j')"
  proof (cases "i' = i \<and> j' = j")
    case True
    with new show ?thesis by simp
  next
    case False
    with db have "done_before i j i' j'" by (simp add: done_before_Suc)
    with inv b have "opt_entry g i' j' (A ! i' ! j')" by (simp add: fill_inv_def)
    with old[OF b False] show ?thesis by simp
  qed
next
  fix i' j' assume b: "i' < rows g" "j' < columns g" and db: "\<not> done_before i (Suc j) i' j'"
  then have nd: "\<not> done_before i j i' j'" and ne: "\<not> (i' = i \<and> j' = j)"
    by (simp_all add: done_before_Suc)
  from inv b nd have "A ! i' ! j' = (if i' = 0 \<and> j' = 0 then Some (path_init g) else None)"
    by (simp add: fill_inv_def)
  with old[OF b ne]
  show "A' ! i' ! j' = (if i' = 0 \<and> j' = 0 then Some (path_init g) else None)" by simp
qed

lemma opt_entry_origin: "opt_entry g 0 0 (Some (path_init g))"
proof -
  have "path_gold g ds \<le> total_gold (path_init g)"
    if "valid_path g ds" "end_pos (0, 0) ds = (0, 0)" for ds
    using valid_path_origin[OF that] by (simp add: path_gold_Nil total_gold_def path_init_def)
  then show ?thesis
    by (simp add: opt_entry_def wf_path_init) (simp add: path_init_def)
qed

text \<open>Processing cell \<open>(i, j)\<close> extends the finished part of the table by that cell.\<close>

lemma dp_cell_inv:
  assumes inv: "fill_inv g i j A" and i: "i < rows g" and j: "j < columns g"
    and s: "get g 0 0 \<noteq> CELL_ROCK"
  shows "\<exists>A'. dp_cell g i j A = Inr A' \<and> fill_inv g i (Suc j) A'"
proof -
  from inv have d: "table_dims g A" by (simp add: fill_inv_def)
  have nd: "\<not> done_before i j i j" by (simp add: done_before_def)
  with inv i j have cur: "A ! i ! j = (if i = 0 \<and> j = 0 then Some (path_init g) else None)"
    by (simp add: fill_inv_def)
  show ?thesis
  proof (cases "get g i j = CELL_ROCK")
    case True
    have n: "(i, j) \<noteq> (0, 0)"
    proof
      assume "(i, j) = (0, 0)"
      then have "get g i j = get g 0 0" by simp
      with True s show False by simp
    qed
    have eq: "dp_cell g i j A = Inr (table_set A i j None)"
      using True by (simp add: dp_cell_def)
    have "\<not> reach g (i, j)"
    proof
      assume "reach g (i, j)"
      then obtain ds where "valid_path g ds" "end_pos (0, 0) ds = (i, j)"
        by (auto simp: reach_def)
      from valid_path_last[OF this n] have "may_step g (i, j)" by blast
      with True show False by (simp add: may_step_def)
    qed
    then have new: "opt_entry g i j (table_set A i j None ! i ! j)"
      unfolding table_set_nth[OF d i j i j] by (simp add: opt_entry_def)
    have "fill_inv g i (Suc j) (table_set A i j None)"
      using inv table_set_dims[OF d] new
    proof (rule fill_inv_step)
      fix i' j' assume "i' < rows g" "j' < columns g" "\<not> (i' = i \<and> j' = j)"
      then show "table_set A i j None ! i' ! j' = A ! i' ! j'"
        using table_set_nth[OF d i j, of i' j' None] by auto
    qed
    with eq show ?thesis by simp
  next
    case False
    with i j have ms: "may_step g (i, j)" by (simp add: may_step_def)
    have "\<exists>fa. from_above g A i j = Inr fa
            \<and> (if 0 < i then arrival g i j (i - 1, j) fa else fa = None)"
    proof (cases "0 < i")
      case True
      then have "done_before i j (i - 1) j" "i - 1 < rows g"
        using i by (simp_all add: done_before_def)
      with inv j have "opt_entry g (i - 1) j (A ! (i - 1) ! j)" by (simp add: fill_inv_def)
      from from_above_arrival[OF True this ms] True show ?thesis by simp
    next
      case False
      then show ?thesis by (simp add: from_above_def)
    qed
    then obtain fa where fa: "from_above g A i j = Inr fa"
      "if 0 < i then arrival g i j (i - 1, j) fa else fa = None" by blast
    have "\<exists>fl. from_left g A i j = Inr fl
            \<and> (if 0 < j then arrival g i j (i, j - 1) fl else fl = None)"
    proof (cases "0 < j")
      case True
      then have "done_before i j i (j - 1)" "j - 1 < columns g"
        using j by (simp_all add: done_before_def)
      with inv i have "opt_entry g i (j - 1) (A ! i ! (j - 1))" by (simp add: fill_inv_def)
      from from_left_arrival[OF True this ms] True show ?thesis by simp
    next
      case False
      then show ?thesis by (simp add: from_left_def)
    qed
    then obtain fl where fl: "from_left g A i j = Inr fl"
      "if 0 < j then arrival g i j (i, j - 1) fl else fl = None" by blast
    have eq: "dp_cell g i j A = Inr (dp_choose A i j fa fl)"
      using False fa(1) fl(1) by (simp add: dp_cell_def)
    have new: "opt_entry g i j (dp_choose A i j fa fl ! i ! j)"
    proof (cases "i = 0 \<and> j = 0")
      case True
      with fa(2) fl(2) have "fa = None" "fl = None" by simp_all
      then have "dp_choose A i j fa fl ! i ! j = A ! i ! j"
        unfolding dp_choose_nth[OF d i j] by simp
      with cur True opt_entry_origin[of g] show ?thesis by simp
    next
      case False
      with cur have "A ! i ! j = None" by simp
      from dp_choose_chosen[OF d i j this]
      have "dp_choose A i j fa fl ! i ! j = chosen fa fl" .
      moreover from False have "(i, j) \<noteq> (0, 0)" by simp
      from chosen_opt[OF this fa(2) fl(2)] have "opt_entry g i j (chosen fa fl)" .
      ultimately show ?thesis by simp
    qed
    have "fill_inv g i (Suc j) (dp_choose A i j fa fl)"
      using inv dp_choose_dims[OF d] new
    proof (rule fill_inv_step)
      fix i' j' assume "i' < rows g" "j' < columns g" "\<not> (i' = i \<and> j' = j)"
      then show "dp_choose A i j fa fl ! i' ! j' = A ! i' ! j'"
        using dp_choose_other[OF d i j] by simp
    qed
    with eq show ?thesis by simp
  qed
qed

lemma fill_inv_next_row:
  assumes "fill_inv g i (columns g) A"
  shows "fill_inv g (Suc i) 0 A"
proof -
  have "done_before (Suc i) 0 i' j' = done_before i (columns g) i' j'"
    if "j' < columns g" for i' j'
    using that by (auto simp: done_before_def)
  with assms show ?thesis by (simp add: fill_inv_def)
qed

lemma dp_row_inv:
  assumes inv: "fill_inv g i 0 A" and i: "i < rows g" and c: "0 < columns g"
    and s: "get g 0 0 \<noteq> CELL_ROCK"
  shows "\<exists>A'. dp_row g i A = Inr A' \<and> fill_inv g (Suc i) 0 A'"
proof -
  have "\<exists>A'. for_loop 0 (Suc (columns g - 1)) (dp_cell g i) A = Inr A'
          \<and> fill_inv g i (Suc (columns g - 1)) A'"
    by (rule for_loop_rule[where I = "\<lambda>j. fill_inv g i j"])
       (use inv i s c in \<open>simp_all add: dp_cell_inv\<close>)
  with c fill_inv_next_row show ?thesis by (auto simp: dp_row_def)
qed

lemma fill_inv_init: "fill_inv g 0 0 (dp_init g)"
  by (simp add: fill_inv_def dp_init_dims dp_init_nth done_before_def)

lemma dp_fill_inv:
  assumes r: "0 < rows g" and c: "0 < columns g" and s: "get g 0 0 \<noteq> CELL_ROCK"
  shows "\<exists>A. dp_fill g = Inr A \<and> fill_inv g (rows g) 0 A"
proof -
  have "\<exists>A. for_loop 0 (Suc (rows g - 1)) (dp_row g) (dp_init g) = Inr A
          \<and> fill_inv g (Suc (rows g - 1)) 0 A"
    by (rule for_loop_rule[where I = "\<lambda>i. fill_inv g i 0"])
       (use r c s in \<open>simp_all add: fill_inv_init dp_row_inv\<close>)
  with r show ?thesis by (simp add: dp_fill_def)
qed

lemma fill_inv_final:
  assumes "fill_inv g (rows g) 0 A" and "i < rows g" and "j < columns g"
  shows "opt_entry g i j (A ! i ! j)"
  using assms by (simp add: fill_inv_def done_before_def)

section \<open>Dynamic programming: the post-processing scan\<close>

lemma post_cell_inv:
  assumes inv: "post_inv g A i j best" and i: "i < rows g" and j: "j < columns g"
  shows "\<exists>best'. post_cell A i j best = Inr best' \<and> post_inv g A i (Suc j) best'"
proof -
  from inv obtain b where b: "best = Some b"
    and mem: "\<exists>i'<rows g. \<exists>j'<columns g. A ! i' ! j' = Some b"
    and dom: "\<And>i' j' p. i' < rows g \<Longrightarrow> j' < columns g \<Longrightarrow> done_before i j i' j'
                 \<Longrightarrow> A ! i' ! j' = Some p \<Longrightarrow> total_gold p \<le> total_gold b"
    unfolding post_inv_def by blast
  show ?thesis
  proof (cases "A ! i ! j")
    case None
    have "post_inv g A i (Suc j) best"
      unfolding post_inv_def done_before_Suc using b mem dom None by auto
    with None show ?thesis by (simp add: post_cell_def)
  next
    case (Some a)
    show ?thesis
    proof (cases "total_gold a > total_gold b")
      case True
      have m: "\<exists>i'<rows g. \<exists>j'<columns g. A ! i' ! j' = Some a" using Some i j by blast
      have "total_gold p \<le> total_gold a"
        if "i' < rows g" "j' < columns g" "done_before i j i' j' \<or> i' = i \<and> j' = j"
          "A ! i' ! j' = Some p" for i' j' p
        using dom[of i' j' p] True Some that by auto
      with m have "post_inv g A i (Suc j) (Some a)"
        unfolding post_inv_def done_before_Suc by blast
      with Some b True show ?thesis by (simp add: post_cell_def)
    next
      case False
      have "total_gold p \<le> total_gold b"
        if "i' < rows g" "j' < columns g" "done_before i j i' j' \<or> i' = i \<and> j' = j"
          "A ! i' ! j' = Some p" for i' j' p
        using dom[of i' j' p] False Some that by auto
      with b mem have "post_inv g A i (Suc j) best"
        unfolding post_inv_def done_before_Suc by blast
      with Some b False show ?thesis by (simp add: post_cell_def)
    qed
  qed
qed

lemma post_inv_next_row:
  assumes "post_inv g A i (columns g) best"
  shows "post_inv g A (Suc i) 0 best"
proof -
  have "done_before (Suc i) 0 i' j' = done_before i (columns g) i' j'"
    if "j' < columns g" for i' j'
    using that by (auto simp: done_before_def)
  with assms show ?thesis by (simp add: post_inv_def)
qed

lemma post_row_inv:
  assumes inv: "post_inv g A i 0 best" and i: "i < rows g" and c: "0 < columns g"
  shows "\<exists>best'. post_row g A i best = Inr best' \<and> post_inv g A (Suc i) 0 best'"
proof -
  have "\<exists>best'. for_loop 0 (Suc (columns g - 1)) (post_cell A i) best = Inr best'
          \<and> post_inv g A i (Suc (columns g - 1)) best'"
    by (rule for_loop_rule[where I = "\<lambda>j. post_inv g A i j"])
       (use inv i c in \<open>simp_all add: post_cell_inv\<close>)
  with c post_inv_next_row show ?thesis by (auto simp: post_row_def)
qed

text \<open>The scan returns an entry of the table with maximal gold.\<close>

lemma dp_post_max:
  assumes r: "0 < rows g" and c: "0 < columns g" and a: "A ! 0 ! 0 = Some p0"
  shows "\<exists>b. dp_post g A = Inr b
           \<and> (\<exists>i<rows g. \<exists>j<columns g. A ! i ! j = Some b)
           \<and> (\<forall>i<rows g. \<forall>j<columns g. \<forall>p. A ! i ! j = Some p
                 \<longrightarrow> total_gold p \<le> total_gold b)"
proof -
  have init: "post_inv g A 0 0 (A ! 0 ! 0)"
    using r c a by (auto simp: post_inv_def done_before_def)
  have "\<exists>best. for_loop 0 (Suc (rows g - 1)) (post_row g A) (A ! 0 ! 0) = Inr best
          \<and> post_inv g A (Suc (rows g - 1)) 0 best"
    by (rule for_loop_rule[where I = "\<lambda>i. post_inv g A i 0"])
       (use init r c in \<open>simp_all add: post_row_inv\<close>)
  then obtain best where
    l: "for_loop 0 (Suc (rows g - 1)) (post_row g A) (A ! 0 ! 0) = Inr best"
    and p: "post_inv g A (rows g) 0 best" using r by auto
  from p obtain b where b: "best = Some b"
    "\<exists>i<rows g. \<exists>j<columns g. A ! i ! j = Some b"
    "\<forall>i<rows g. \<forall>j<columns g. \<forall>p. A ! i ! j = Some p \<longrightarrow> total_gold p \<le> total_gold b"
    unfolding post_inv_def done_before_def by auto
  from l b(1) have "dp_post g A = Inr b" by (simp add: dp_post_def)
  with b(2,3) show ?thesis by blast
qed

lemma dp_table_optimal:
  assumes r: "0 < rows g" and c: "0 < columns g" and s: "get g 0 0 \<noteq> CELL_ROCK"
  shows "\<exists>A p0. dp_fill g = Inr A \<and> A ! 0 ! 0 = Some p0
           \<and> (\<forall>i<rows g. \<forall>j<columns g. opt_entry g i j (A ! i ! j))"
proof -
  from dp_fill_inv[OF r c s] obtain A where
    f: "dp_fill g = Inr A" and inv: "fill_inv g (rows g) 0 A" by blast
  have o: "opt_entry g i j (A ! i ! j)" if "i < rows g" "j < columns g" for i j
    using fill_inv_final[OF inv that] .
  have "reach g (0, 0)" unfolding reach_def
    by (rule exI[of _ "[]"]) (simp add: valid_path_def)
  with o[OF r c] obtain p0 where "A ! 0 ! 0 = Some p0"
    by (cases "A ! 0 ! 0") (auto simp: opt_entry_def)
  with f o show ?thesis by blast
qed

text \<open>On a non-empty grid with a start cell that is not ROCK the
  dynamic-programming search returns a valid path that no valid path beats.\<close>

lemma dyn_prog_optimal:
  assumes r: "0 < rows g" and c: "0 < columns g" and s: "get g 0 0 \<noteq> CELL_ROCK"
  shows "\<exists>best. greedy_gnomes_dyn_prog g = Inr best \<and> wf_path g best
           \<and> (\<forall>ds. valid_path g ds \<longrightarrow> path_gold g ds \<le> total_gold best)"
proof -
  from dp_table_optimal[OF r c s] obtain A p0 where
    f: "dp_fill g = Inr A" and a: "A ! 0 ! 0 = Some p0"
    and o: "\<And>i j. i < rows g \<Longrightarrow> j < columns g \<Longrightarrow> opt_entry g i j (A ! i ! j)" by blast
  from dp_post_max[OF r c a] obtain b where
    p: "dp_post g A = Inr b" and mem: "\<exists>i<rows g. \<exists>j<columns g. A ! i ! j = Some b"
    and mx: "\<And>i j p. i < rows g \<Longrightarrow> j < columns g \<Longrightarrow> A ! i ! j = Some p
               \<Longrightarrow> total_gold p \<le> total_gold b" by blast
  from mem o have wf: "wf_path g b" by (fastforce simp: opt_entry_def)
  have "path_gold g ds \<le> total_gold b" if v: "valid_path g ds" for ds
  proof -
    obtain i j where e: "end_pos (0, 0) ds = (i, j)" by (cases "end_pos (0, 0) ds")
    have b: "i < rows g \<and> j < columns g"
    proof (cases "ds = []")
      case True
      with e r c show ?thesis by simp
    next
      case False
      from v have "valid_from g (0, 0) ds" by (simp add: valid_path_def)
      from valid_from_end[OF this False] e show ?thesis by (simp add: may_step_def)
    qed
    from v e have "reach g (i, j)" by (auto simp: reach_def)
    with o[of i j] b obtain p where pe: "A ! i ! j = Some p"
      by (cases "A ! i ! j") (auto simp: opt_entry_def)
    with o[of i j] b v e have "path_gold g ds \<le> total_gold p" by (simp add: opt_entry_def)
    with mx[OF _ _ pe] b show ?thesis by simp
  qed
  with f p wf r c show ?thesis by (simp add: greedy_gnomes_dyn_prog_def)
qed

section \<open>Further facts\<close>

lemma wf_path_valid: "wf_path g p \<Longrightarrow> valid_path g (moves p)"
  by (simp add: wf_path_def)

text \<open>A loop aborts only with an error of its body.\<close>

lemma for_loop_error:
  "for_loop lo hi body s = Inl e \<Longrightarrow> (\<And>i s e. body i s = Inl e \<Longrightarrow> P e) \<Longrightarrow> P e"
proof (induction lo hi body s rule: for_loop.induct)
  case (1 i hi body s)
  show ?case
  proof (cases "i < hi")
    case False
    with "1.prems"(1) show ?thesis by (simp add: for_loop.simps)
  next
    case True
    show ?thesis
    proof (cases "body i s")
      case (Inl e')
      with True "1.prems"(1) have "e' = e" by (simp add: for_loop.simps)
      with "1.prems"(2)[OF Inl] show ?thesis by simp
    next
      case (Inr s')
      with True "1.prems"(1) have "for_loop (Suc i) hi body s' = Inl e"
        by (simp add: for_loop.simps)
      from "1.IH"[OF True Inr this "1.prems"(2)] show ?thesis .
    qed
  qed
qed

lemma post_cell_error: "post_cell A i j best = Inl e \<Longrightarrow> e = NULLOPT_DEREFERENCE"
  by (auto simp: post_cell_def split: option.splits)

lemma post_row_error: "post_row g A i best = Inl e \<Longrightarrow> e = NULLOPT_DEREFERENCE"
  unfolding post_row_def by (erule for_loop_error) (rule post_cell_error)

lemma dp_post_error: "dp_post g A = Inl e \<Longrightarrow> e = NULLOPT_DEREFERENCE"
proof -
  assume a: "dp_post g A = Inl e"
  show ?thesis
  proof (cases "for_loop 0 (Suc (rows g - 1)) (post_row g A) (A ! 0 ! 0)")
    case (Inl e')
    with a have "e' = e" by (simp add: dp_post_def)
    moreover from Inl have "e' = NULLOPT_DEREFERENCE"
      by (rule for_loop_error) (rule post_row_error)
    ultimately show ?thesis by simp
  next
    case (Inr best)
    with a show ?thesis by (simp add: dp_post_def split: option.splits)
  qed
qed

lemma valid_from_visited:
  "valid_from g pos ds \<Longrightarrow> may_step g pos \<Longrightarrow> list_all (may_step g) (visited pos ds)"
  by (induction ds arbitrary: pos) auto

lemma wf_path_visited:
  assumes "wf_path g p" and "may_step g (0, 0)"
  shows "list_all (may_step g) (visited (0, 0) (moves p))
         \<and> end_pos (0, 0) (moves p) = (cur_row p, cur_column p)"
  using valid_from_visited[of g "(0, 0)" "moves p"] wf_path_head[OF assms(1)] assms
  by (simp add: wf_path_def valid_path_def)

text \<open>When no move is valid at the start, every candidate is the fresh path.\<close>

lemma exhaustive_step_stuck:
  assumes "\<not> is_step_valid g c STEP_DIRECTION_RIGHT" and "\<not> is_step_valid g c STEP_DIRECTION_DOWN"
  shows "exhaustive_step g bits k c = Inr c"
  using assms by (simp add: exhaustive_step_def)

lemma exhaustive_candidate_stuck:
  assumes "\<not> may_step g (0, 1)" and "\<not> may_step g (1, 0)"
  shows "exhaustive_candidate g len bits = Inr (path_init g)"
proof -
  have s: "exhaustive_step g bits k (path_init g) = Inr (path_init g)" for k
    by (rule exhaustive_step_stuck) (use assms in \<open>simp_all add: is_step_valid_def path_init_def\<close>)
  have "\<exists>c. for_loop 0 len (exhaustive_step g bits) (path_init g) = Inr c \<and> c = path_init g"
    by (rule for_loop_rule[where I = "\<lambda>k c. c = path_init g"]) (simp_all add: s)
  then show ?thesis by (simp add: exhaustive_candidate_def)
qed

lemma exhaustive_len_stuck:
  assumes "\<not> may_step g (0, 1)" and "\<not> may_step g (1, 0)"
  shows "exhaustive_len g len (path_init g) = Inr (path_init g)"
proof -
  have s: "exhaustive_bits g len bits (path_init g) = Inr (path_init g)" for bits
    by (simp add: exhaustive_bits_def exhaustive_candidate_stuck[OF assms])
  have "\<exists>b. for_loop 0 (bits_bound len) (exhaustive_bits g len) (path_init g) = Inr b
          \<and> b = path_init g"
    by (rule for_loop_rule[where I = "\<lambda>k c. c = path_init g"]) (simp_all add: s)
  then show ?thesis by (simp add: exhaustive_len_def)
qed

lemma exhaustive_loops_stuck:
  assumes "\<not> may_step g (0, 1)" and "\<not> may_step g (1, 0)"
  shows "for_loop 0 n (exhaustive_len g) (path_init g) = Inr (path_init g)"
proof -
  have "\<exists>b. for_loop 0 n (exhaustive_len g) (path_init g) = Inr b \<and> b = path_init g"
    by (rule for_loop_rule[where I = "\<lambda>k c. c = path_init g"])
       (simp_all add: exhaustive_len_stuck[OF assms])
  then show ?thesis by simp
qed

lemma heads_ok_table_tie: "heads_ok grid_tie table_tie"
  by (auto simp: heads_ok_def table_dims_def grid_tie_def table_tie_def less_Suc_eq numeral_2_eq_2)

text \<open>On a grid whose start cell is ROCK the table stays empty and \<^verbatim>\<open>*best\<close>
  dereferences an absent value.\<close>

lemma dp_cell_rock_inv:
  assumes inv: "rock_inv g i j A" and i: "i < rows g" and j: "j < columns g"
    and s: "get g 0 0 = CELL_ROCK"
  shows "\<exists>A'. dp_cell g i j A = Inr A' \<and> rock_inv g i (Suc j) A'"
proof -
  from inv have d: "table_dims g A"
    and e: "\<And>i' j'. i' < rows g \<Longrightarrow> j' < columns g \<Longrightarrow>
              A ! i' ! j' = (if \<not> done_before i j i' j' \<and> i' = 0 \<and> j' = 0
                             then Some (path_init g) else None)"
    by (simp_all add: rock_inv_def)
  show ?thesis
  proof (cases "get g i j = CELL_ROCK")
    case True
    have "rock_inv g i (Suc j) (table_set A i j None)"
      unfolding rock_inv_def
    proof (intro conjI allI impI)
      show "table_dims g (table_set A i j None)" by (rule table_set_dims[OF d])
    next
      fix i' j' assume b: "i' < rows g" "j' < columns g"
      show "table_set A i j None ! i' ! j' =
              (if \<not> done_before i (Suc j) i' j' \<and> i' = 0 \<and> j' = 0
               then Some (path_init g) else None)"
        unfolding table_set_nth[OF d i j b] using e[OF b]
        by (auto simp: done_before_def)
    qed
    with True show ?thesis by (simp add: dp_cell_def)
  next
    case False
    have n: "\<not> (i = 0 \<and> j = 0)"
    proof
      assume "i = 0 \<and> j = 0"
      then have "get g i j = get g 0 0" by simp
      with False s show False by simp
    qed
    have a: "from_above g A i j = Inr None"
    proof (cases "0 < i")
      case True
      then have "i - 1 < rows g" "done_before i j (i - 1) j"
        using i by (simp_all add: done_before_def)
      with e[of "i - 1" j] j have "A ! (i - 1) ! j = None" by simp
      then show ?thesis by (simp add: from_above_def)
    next
      case False
      then show ?thesis by (simp add: from_above_def)
    qed
    have l: "from_left g A i j = Inr None"
    proof (cases "0 < j")
      case True
      then have "j - 1 < columns g" "done_before i j i (j - 1)"
        using j by (simp_all add: done_before_def)
      with e[of i "j - 1"] i have "A ! i ! (j - 1) = None" by simp
      then show ?thesis by (simp add: from_left_def)
    next
      case False
      then show ?thesis by (simp add: from_left_def)
    qed
    have eq: "dp_cell g i j A = Inr A"
      using False a l by (simp add: dp_cell_def dp_choose_def)
    have "rock_inv g i (Suc j) A"
      unfolding rock_inv_def
    proof (intro conjI allI impI)
      show "table_dims g A" by (rule d)
    next
      fix i' j' assume b: "i' < rows g" "j' < columns g"
      show "A ! i' ! j' =
              (if \<not> done_before i (Suc j) i' j' \<and> i' = 0 \<and> j' = 0
               then Some (path_init g) else None)"
        using e[OF b] n by (auto simp: done_before_def)
    qed
    with eq show ?thesis by simp
  qed
qed

lemma rock_inv_next_row:
  assumes "rock_inv g i (columns g) A"
  shows "rock_inv g (Suc i) 0 A"
proof -
  have "done_before (Suc i) 0 i' j' = done_before i (columns g) i' j'"
    if "j' < columns g" for i' j'
    using that by (auto simp: done_before_def)
  with assms show ?thesis by (simp add: rock_inv_def)
qed

lemma dp_row_rock_inv:
  assumes inv: "rock_inv g i 0 A" and i: "i < rows g" and c: "0 < columns g"
    and s: "get g 0 0 = CELL_ROCK"
  shows "\<exists>A'. dp_row g i A = Inr A' \<and> rock_inv g (Suc i) 0 A'"
proof -
  have "\<exists>A'. for_loop 0 (Suc (columns g - 1)) (dp_cell g i) A = Inr A'
          \<and> rock_inv g i (Suc (columns g - 1)) A'"
    by (rule for_loop_rule[where I = "\<lambda>j. rock_inv g i j"])
       (use inv i s c in \<open>simp_all add: dp_cell_rock_inv\<close>)
  with c rock_inv_next_row show ?thesis by (auto simp: dp_row_def)
qed

lemma dp_fill_rock:
  assumes r: "0 < rows g" and c: "0 < columns g" and s: "get g 0 0 = CELL_ROCK"
  shows "\<exists>A. dp_fill g = Inr A \<and> (\<forall>i<rows g. \<forall>j<columns g. A ! i ! j = None)"
proof -
  have init: "rock_inv g 0 0 (dp_init g)"
    by (simp add: rock_inv_def dp_init_dims dp_init_nth done_before_def)
  have "\<exists>A. for_loop 0 (Suc (rows g - 1)) (dp_row g) (dp_init g) = Inr A
          \<and> rock_inv g (Suc (rows g - 1)) 0 A"
    by (rule for_loop_rule[where I = "\<lambda>i. rock_inv g i 0"])
       (use init r c s in \<open>simp_all add: dp_row_rock_inv\<close>)
  then obtain A where A: "dp_fill g = Inr A" "rock_inv g (rows g) 0 A"
    using r by (auto simp: dp_fill_def)
  from A(2) have "A ! i ! j = None" if "i < rows g" "j < columns g" for i j
    using that by (simp add: rock_inv_def done_before_def)
  with A(1) show ?thesis by blast
qed

lemma dp_post_absent:
  assumes r: "0 < rows g" and c: "0 < columns g"
    and e: "\<forall>i<rows g. \<forall>j<columns g. A ! i ! j = None"
  shows "dp_post g A = Inl NULLOPT_DEREFERENCE"
proof -
  have row: "\<exists>b. post_row g A i None = Inr b \<and> b = None" if i: "i < rows g" for i
    unfolding post_row_def
    by (rule for_loop_rule[where I = "\<lambda>_ b. b = None"])
       (use e i c in \<open>simp_all add: post_cell_def\<close>)
  have "\<exists>b. for_loop 0 (Suc (rows g - 1)) (post_row g A) None = Inr b \<and> b = None"
    by (rule for_loop_rule[where I = "\<lambda>_ b. b = None"]) (use row r in simp_all)
  moreover from e r c have "A ! 0 ! 0 = None" by simp
  ultimately show ?thesis by (simp add: dp_post_def)
qed

lemma dyn_prog_rock_start:
  assumes "0 < rows g" and "0 < columns g" and "get g 0 0 = CELL_ROCK"
  shows "greedy_gnomes_dyn_prog g = Inl NULLOPT_DEREFERENCE"
proof -
  from dp_fill_rock[OF assms] obtain A where
    A: "dp_fill g = Inr A" "\<forall>i<rows g. \<forall>j<columns g. A ! i ! j = None" by blast
  from dp_post_absent[OF assms(1,2) A(2)] A(1) assms(1,2)
  show ?thesis by (simp add: greedy_gnomes_dyn_prog_def)
qed

lemma dyn_prog_rock_start_example:
  "greedy_gnomes_dyn_prog grid_rock_start = Inl NULLOPT_DEREFERENCE"
  by code_simp

section \<open>Properties of the two searches\<close>

text \<open>
  C1. For every non-empty grid with \<open>rows + columns - 2 < 64\<close> and an OPEN start
  cell, the exhaustive search and the dynamic-programming search both return a
  path, and the two paths have the same total gold.
\<close>

theorem searches_agree:
  assumes "0 < rows g" and "0 < columns g" and "rows g + columns g - 2 < 64"
    and "get g 0 0 \<noteq> CELL_ROCK"
  shows "\<exists>p q. greedy_gnomes_exhaustive g = Inr p \<and> greedy_gnomes_dyn_prog g = Inr q
           \<and> total_gold p = total_gold q"
proof -
  from exhaustive_optimal[OF assms(1-3)] obtain p where
    p: "greedy_gnomes_exhaustive g = Inr p" "wf_path g p"
       "\<And>ds. valid_path g ds \<Longrightarrow> path_gold g ds \<le> total_gold p" by blast
  from dyn_prog_optimal[OF assms(1,2,4)] obtain q where
    q: "greedy_gnomes_dyn_prog g = Inr q" "wf_path g q"
       "\<And>ds. valid_path g ds \<Longrightarrow> path_gold g ds \<le> total_gold q" by blast
  from p(3)[OF wf_path_valid[OF q(2)]] wf_path_gold[OF q(2)]
  have "total_gold q \<le> total_gold p" by simp
  moreover from q(3)[OF wf_path_valid[OF p(2)]] wf_path_gold[OF p(2)]
  have "total_gold p \<le> total_gold q" by simp
  ultimately show ?thesis using p(1) q(1) by simp
qed

theorem searches_agree_witness:
  "0 < rows grid_2x2 \<and> 0 < columns grid_2x2 \<and> rows grid_2x2 + columns grid_2x2 - 2 < 64
   \<and> get grid_2x2 0 0 \<noteq> CELL_ROCK
   \<and> (\<exists>p q. greedy_gnomes_exhaustive grid_2x2 = Inr p \<and> greedy_gnomes_dyn_prog grid_2x2 = Inr q
          \<and> total_gold p = total_gold q)"
proof -
  have h: "0 < rows grid_2x2" "0 < columns grid_2x2" "rows grid_2x2 + columns grid_2x2 - 2 < 64"
    "get grid_2x2 0 0 \<noteq> CELL_ROCK"
    by (simp_all add: grid_2x2_def)
  from searches_agree[OF h] h show ?thesis by simp
qed

text \<open>
  C2. For every non-empty grid whose start cell is OPEN, the dynamic-programming
  search returns a path whose moves form a valid monotone path, whose total gold
  is the gold of that path, and no valid monotone path (of any length, stopping
  anywhere) collects more: the returned total gold is the maximum.
\<close>

theorem dyn_prog_maximum:
  assumes "0 < rows g" and "0 < columns g" and "get g 0 0 \<noteq> CELL_ROCK"
  shows "\<exists>best. greedy_gnomes_dyn_prog g = Inr best
           \<and> valid_path g (moves best) \<and> path_gold g (moves best) = total_gold best
           \<and> (\<forall>ds. valid_path g ds \<longrightarrow> path_gold g ds \<le> total_gold best)"
proof -
  from dyn_prog_optimal[OF assms] obtain best where
    "greedy_gnomes_dyn_prog g = Inr best" "wf_path g best"
    "\<forall>ds. valid_path g ds \<longrightarrow> path_gold g ds \<le> total_gold best" by blast
  with wf_path_valid[of g best] wf_path_gold[of g best] show ?thesis by auto
qed

theorem dyn_prog_maximum_witness:
  "valid_path grid_2x2 [STEP_DIRECTION_RIGHT, STEP_DIRECTION_DOWN]
   \<and> path_gold grid_2x2 [STEP_DIRECTION_RIGHT, STEP_DIRECTION_DOWN] = 7
   \<and> (\<exists>best. greedy_gnomes_dyn_prog grid_2x2 = Inr best \<and> 7 \<le> total_gold best
          \<and> valid_path grid_2x2 (moves best)
          \<and> path_gold grid_2x2 (moves best) = total_gold best)"
proof -
  have h: "0 < rows grid_2x2" "0 < columns grid_2x2" "get grid_2x2 0 0 \<noteq> CELL_ROCK"
    by (simp_all add: grid_2x2_def)
  have v: "valid_path grid_2x2 [STEP_DIRECTION_RIGHT, STEP_DIRECTION_DOWN]"
    by (simp add: valid_path_def may_step_def grid_2x2_def)
  have g: "path_gold grid_2x2 [STEP_DIRECTION_RIGHT, STEP_DIRECTION_DOWN] = 7"
    by (simp add: path_gold_def cells_gold_def grid_2x2_def)
  from dyn_prog_maximum[OF h] obtain best where
    b: "greedy_gnomes_dyn_prog grid_2x2 = Inr best" "valid_path grid_2x2 (moves best)"
       "path_gold grid_2x2 (moves best) = total_gold best"
       "\<forall>ds. valid_path grid_2x2 ds \<longrightarrow> path_gold grid_2x2 ds \<le> total_gold best" by blast
  from b(4) v g have "7 \<le> total_gold best" by fastforce
  with v g b show ?thesis by blast
qed

text \<open>
  C3. For every non-empty grid with \<open>rows + columns - 2 < 64\<close> and an OPEN start
  cell, the exhaustive search returns a path whose moves form a valid monotone
  path, whose total gold is the gold of that path, and no valid monotone path
  (stopping anywhere) collects more: the returned total gold is the maximum.
\<close>

theorem exhaustive_maximum:
  assumes "0 < rows g" and "0 < columns g" and "rows g + columns g - 2 < 64"
    and "get g 0 0 \<noteq> CELL_ROCK"
  shows "\<exists>best. greedy_gnomes_exhaustive g = Inr best
           \<and> valid_path g (moves best) \<and> path_gold g (moves best) = total_gold best
           \<and> (\<forall>ds. valid_path g ds \<longrightarrow> path_gold g ds \<le> total_gold best)"
proof -
  from exhaustive_optimal[OF assms(1-3)] obtain best where
    "greedy_gnomes_exhaustive g = Inr best" "wf_path g best"
    "\<forall>ds. valid_path g ds \<longrightarrow> path_gold g ds \<le> total_gold best" by blast
  with wf_path_valid[of g best] wf_path_gold[of g best] show ?thesis by auto
qed

theorem exhaustive_maximum_witness:
  "valid_path grid_2x2 [STEP_DIRECTION_DOWN, STEP_DIRECTION_RIGHT]
   \<and> path_gold grid_2x2 [STEP_DIRECTION_DOWN, STEP_DIRECTION_RIGHT] = 8
   \<and> (\<exists>best. greedy_gnomes_exhaustive grid_2x2 = Inr best \<and> 8 \<le> total_gold best
          \<and> valid_path grid_2x2 (moves best)
          \<and> path_gold grid_2x2 (moves best) = total_gold best)"
proof -
  have h: "0 < rows grid_2x2" "0 < columns grid_2x2" "rows grid_2x2 + columns grid_2x2 - 2 < 64"
    "get grid_2x2 0 0 \<noteq> CELL_ROCK"
    by (simp_all add: grid_2x2_def)
  have v: "valid_path grid_2x2 [STEP_DIRECTION_DOWN, STEP_DIRECTION_RIGHT]"
    by (simp add: valid_path_def may_step_def grid_2x2_def)
  have g: "path_gold grid_2x2 [STEP_DIRECTION_DOWN, STEP_DIRECTION_RIGHT] = 8"
    by (simp add: path_gold_def cells_gold_def grid_2x2_def)
  from exhaustive_maximum[OF h] obtain best where
    b: "greedy_gnomes_exhaustive grid_2x2 = Inr best" "valid_path grid_2x2 (moves best)"
       "path_gold grid_2x2 (moves best) = total_gold best"
       "\<forall>ds. valid_path grid_2x2 ds \<longrightarrow> path_gold grid_2x2 ds \<le> total_gold best" by blast
  from b(4) v g have "8 \<le> total_gold best" by fastforce
  with v g b show ?thesis by blast
qed

text \<open>
  C4 (as amended). In the body of the general cases, for a cell \<open>(i, j)\<close> that is
  not ROCK and for which both \<^verbatim>\<open>from_above\<close> and \<^verbatim>\<open>from_left\<close> are present, the entry
  \<open>A[i][j]\<close> is assigned \<^verbatim>\<open>from_above\<close> when it has strictly more gold, and
  \<^verbatim>\<open>from_left\<close> otherwise; in particular a tie is resolved in favour of
  \<^verbatim>\<open>from_left\<close>.
\<close>

theorem dp_cell_choice:
  assumes "i < length A" and "j < length (A ! i)" and "get g i j \<noteq> CELL_ROCK"
    and "from_above g A i j = Inr (Some a)" and "from_left g A i j = Inr (Some l)"
  shows "\<exists>A'. dp_cell g i j A = Inr A'
           \<and> A' ! i ! j = Some (if total_gold a > total_gold l then a else l)"
  using assms by (simp add: dp_cell_def dp_choose_def table_set_def)

theorem dp_cell_choice_witness:
  "1 < length table_tie \<and> 1 < length (table_tie ! 1) \<and> get grid_tie 1 1 \<noteq> CELL_ROCK
   \<and> from_above grid_tie table_tie 1 1
     = Inr (Some \<lparr>cur_row = 1, cur_column = 1,
                   moves = [STEP_DIRECTION_RIGHT, STEP_DIRECTION_DOWN], gold = 7\<rparr>)
   \<and> from_left grid_tie table_tie 1 1
     = Inr (Some \<lparr>cur_row = 1, cur_column = 1,
                   moves = [STEP_DIRECTION_DOWN, STEP_DIRECTION_RIGHT], gold = 7\<rparr>)
   \<and> (\<exists>A'. dp_cell grid_tie 1 1 table_tie = Inr A'
          \<and> A' ! 1 ! 1 = Some \<lparr>cur_row = 1, cur_column = 1,
                   moves = [STEP_DIRECTION_DOWN, STEP_DIRECTION_RIGHT], gold = 7\<rparr>)"
proof -
  have h1: "1 < length table_tie" by (simp add: table_tie_def)
  have h2: "1 < length (table_tie ! 1)" by (simp add: table_tie_def)
  have h3: "get grid_tie 1 1 \<noteq> CELL_ROCK" by (simp add: grid_tie_def)
  have h4: "from_above grid_tie table_tie 1 1
     = Inr (Some \<lparr>cur_row = 1, cur_column = 1,
                   moves = [STEP_DIRECTION_RIGHT, STEP_DIRECTION_DOWN], gold = 7\<rparr>)"
    by code_simp
  have h5: "from_left grid_tie table_tie 1 1
     = Inr (Some \<lparr>cur_row = 1, cur_column = 1,
                   moves = [STEP_DIRECTION_DOWN, STEP_DIRECTION_RIGHT], gold = 7\<rparr>)"
    by code_simp
  from dp_cell_choice[OF h1 h2 h3 h4 h5] h1 h2 h3 h4 h5
  show ?thesis by (simp add: total_gold_def)
qed

text \<open>
  The claim as stated gives a tie to \<^verbatim>\<open>from_above\<close>. On the grid 1 2 / 2 4 the
  two arrivals at cell (1,1) both carry gold 7, and the entry assigned is the one
  that came from the left (DOWN, RIGHT), not the one from above (RIGHT, DOWN).
\<close>

theorem dp_cell_tie_counterexample:
  "dp_row grid_tie 0 (dp_init grid_tie)
     = Inr [[Some \<lparr>cur_row = 0, cur_column = 0, moves = [], gold = 1\<rparr>,
             Some \<lparr>cur_row = 0, cur_column = 1, moves = [STEP_DIRECTION_RIGHT], gold = 3\<rparr>],
            [None, None]]
   \<and> dp_cell grid_tie 1 0
        [[Some \<lparr>cur_row = 0, cur_column = 0, moves = [], gold = 1\<rparr>,
          Some \<lparr>cur_row = 0, cur_column = 1, moves = [STEP_DIRECTION_RIGHT], gold = 3\<rparr>],
         [None, None]]
     = Inr table_tie
   \<and> from_above grid_tie table_tie 1 1
     = Inr (Some \<lparr>cur_row = 1, cur_column = 1,
                   moves = [STEP_DIRECTION_RIGHT, STEP_DIRECTION_DOWN], gold = 7\<rparr>)
   \<and> from_left grid_tie table_tie 1 1
     = Inr (Some \<lparr>cur_row = 1, cur_column = 1,
                   moves = [STEP_DIRECTION_DOWN, STEP_DIRECTION_RIGHT], gold = 7\<rparr>)
   \<and> dp_cell grid_tie 1 1 table_tie
     = Inr (table_set table_tie 1 1
              (Some \<lparr>cur_row = 1, cur_column = 1,
                     moves = [STEP_DIRECTION_DOWN, STEP_DIRECTION_RIGHT], gold = 7\<rparr>))
   \<and> table_set table_tie 1 1
        (Some \<lparr>cur_row = 1, cur_column = 1,
               moves = [STEP_DIRECTION_DOWN, STEP_DIRECTION_RIGHT], gold = 7\<rparr>) ! 1 ! 1
     = Some \<lparr>cur_row = 1, cur_column = 1,
             moves = [STEP_DIRECTION_DOWN, STEP_DIRECTION_RIGHT], gold = 7\<rparr>
   \<and> table_set table_tie 1 1
        (Some \<lparr>cur_row = 1, cur_column = 1,
               moves = [STEP_DIRECTION_DOWN, STEP_DIRECTION_RIGHT], gold = 7\<rparr>) ! 1 ! 1
     \<noteq> Some \<lparr>cur_row = 1, cur_column = 1,
             moves = [STEP_DIRECTION_RIGHT, STEP_DIRECTION_DOWN], gold = 7\<rparr>"
  by code_simp

text \<open>
  C5. The claim says that the exhaustive search returns the first candidate of
  maximal gold in enumeration order. On the one-row grid with gold 3 at the start
  and an empty cell to its right, the first candidate (length 0, no move) already
  has the maximal gold 3, yet the search returns the later candidate RIGHT, which
  has the same gold: a best path without moves still passes the test
  \<^verbatim>\<open>best.last_step() == STEP_DIRECTION_START\<close> and is replaced by any candidate.
  The dynamic-programming search keeps the path without moves on the same grid.
\<close>

theorem exhaustive_tie_flat:
  "exhaustive_candidate grid_flat 0 0
     = Inr \<lparr>cur_row = 0, cur_column = 0, moves = [], gold = 3\<rparr>
   \<and> greedy_gnomes_exhaustive grid_flat
     = Inr \<lparr>cur_row = 0, cur_column = 1, moves = [STEP_DIRECTION_RIGHT], gold = 3\<rparr>
   \<and> greedy_gnomes_dyn_prog grid_flat
     = Inr \<lparr>cur_row = 0, cur_column = 0, moves = [], gold = 3\<rparr>"
  by code_simp

text \<open>
  C6 (as amended). For every non-empty grid with \<open>rows + columns - 2 < 64\<close> whose
  start cell is ROCK and from whose start cell no move is valid (each of the
  cells (0,1) and (1,0) is out of bounds or ROCK), the exhaustive search returns
  the path without moves, whose last step is START and whose total gold is 0.
\<close>

theorem exhaustive_rock_start:
  assumes "0 < rows g" and "0 < columns g" and "rows g + columns g - 2 < 64"
    and "get g 0 0 = CELL_ROCK" and "\<not> may_step g (0, 1)" and "\<not> may_step g (1, 0)"
  shows "\<exists>p. greedy_gnomes_exhaustive g = Inr p \<and> moves p = []
           \<and> last_step p = STEP_DIRECTION_START \<and> total_gold p = 0"
proof -
  have "greedy_gnomes_exhaustive g = Inr (path_init g)"
    using assms(1-3) exhaustive_loops_stuck[OF assms(5,6)]
    by (simp add: greedy_gnomes_exhaustive_def Let_def)
  moreover have "moves (path_init g) = []" "last_step (path_init g) = STEP_DIRECTION_START"
    "total_gold (path_init g) = 0"
    using assms(4) by (simp_all add: path_init_def last_step_def total_gold_def)
  ultimately show ?thesis by simp
qed

theorem exhaustive_rock_start_witness:
  "0 < rows grid_rock \<and> 0 < columns grid_rock \<and> rows grid_rock + columns grid_rock - 2 < 64
   \<and> get grid_rock 0 0 = CELL_ROCK \<and> \<not> may_step grid_rock (0, 1) \<and> \<not> may_step grid_rock (1, 0)
   \<and> (\<exists>p. greedy_gnomes_exhaustive grid_rock = Inr p \<and> moves p = []
          \<and> last_step p = STEP_DIRECTION_START \<and> total_gold p = 0)"
proof -
  have h: "0 < rows grid_rock" "0 < columns grid_rock" "rows grid_rock + columns grid_rock - 2 < 64"
    "get grid_rock 0 0 = CELL_ROCK" "\<not> may_step grid_rock (0, 1)" "\<not> may_step grid_rock (1, 0)"
    by (simp_all add: grid_rock_def may_step_def)
  from exhaustive_rock_start[OF h] h show ?thesis by simp
qed

text \<open>
  Without the condition on the neighbours the claim fails: the search never looks
  at the kind of the start cell, so on the row ROCK, 5 it steps RIGHT and returns
  a path of one move with gold 5.
\<close>

theorem exhaustive_rock_start_counterexample:
  "0 < rows grid_rock_start \<and> 0 < columns grid_rock_start
   \<and> rows grid_rock_start + columns grid_rock_start - 2 < 64
   \<and> get grid_rock_start 0 0 = CELL_ROCK
   \<and> greedy_gnomes_exhaustive grid_rock_start
     = Inr \<lparr>cur_row = 0, cur_column = 1, moves = [STEP_DIRECTION_RIGHT], gold = 5\<rparr>
   \<and> last_step \<lparr>cur_row = 0, cur_column = 1, moves = [STEP_DIRECTION_RIGHT], gold = 5\<rparr>
     = STEP_DIRECTION_RIGHT
   \<and> total_gold \<lparr>cur_row = 0, cur_column = 1, moves = [STEP_DIRECTION_RIGHT], gold = 5\<rparr> = 5"
  by code_simp

text \<open>
  C7. For every non-empty grid whose start cell is not ROCK, the table that
  reaches the post-processing stage has a present entry at \<open>A[0][0]\<close>, the
  post-processing scan and \<^verbatim>\<open>*best\<close> return a path, and the call does not end in the
  dereference of an absent value.
\<close>

theorem dyn_prog_start_present:
  assumes "0 < rows g" and "0 < columns g" and "get g 0 0 \<noteq> CELL_ROCK"
  shows "\<exists>A p0 best. dp_fill g = Inr A \<and> A ! 0 ! 0 = Some p0
           \<and> dp_post g A = Inr best \<and> greedy_gnomes_dyn_prog g = Inr best
           \<and> greedy_gnomes_dyn_prog g \<noteq> Inl NULLOPT_DEREFERENCE"
proof -
  from dp_table_optimal[OF assms] obtain A p0 where
    f: "dp_fill g = Inr A" and a: "A ! 0 ! 0 = Some p0" by blast
  from dp_post_max[OF assms(1,2) a] obtain best where p: "dp_post g A = Inr best" by blast
  from f p assms(1,2) have "greedy_gnomes_dyn_prog g = Inr best"
    by (simp add: greedy_gnomes_dyn_prog_def)
  with f a p show ?thesis by simp
qed

theorem dyn_prog_start_present_witness:
  "0 < rows grid_2x2 \<and> 0 < columns grid_2x2 \<and> get grid_2x2 0 0 \<noteq> CELL_ROCK
   \<and> (\<exists>A p0 best. dp_fill grid_2x2 = Inr A \<and> A ! 0 ! 0 = Some p0
          \<and> dp_post grid_2x2 A = Inr best \<and> greedy_gnomes_dyn_prog grid_2x2 = Inr best
          \<and> greedy_gnomes_dyn_prog grid_2x2 \<noteq> Inl NULLOPT_DEREFERENCE)"
proof -
  have h: "0 < rows grid_2x2" "0 < columns grid_2x2" "get grid_2x2 0 0 \<noteq> CELL_ROCK"
    by (simp_all add: grid_2x2_def)
  from dyn_prog_start_present[OF h] h show ?thesis by simp
qed

text \<open>
  C8. The table of the dynamic-programming search keeps the invariant that every
  present entry \<open>A[i][j]\<close> is a path whose head is \<open>(i, j)\<close>: it holds for the
  initial table, processing any cell keeps it, and it holds for the finished
  table. Under the invariant, when \<open>A[i-1][j]\<close> (resp. \<open>A[i][j-1]\<close>) is present and
  cell \<open>(i, j)\<close> is not ROCK, the guarded step DOWN (resp. RIGHT) is valid and is
  taken: \<^verbatim>\<open>from_above\<close> (resp. \<^verbatim>\<open>from_left\<close>) is the extended path, with head
  \<open>(i, j)\<close>.
\<close>

theorem dp_heads_invariant:
  "heads_ok g (dp_init g)
   \<and> (\<forall>A i j. heads_ok g A \<and> i < rows g \<and> j < columns g \<longrightarrow>
         (\<exists>A'. dp_cell g i j A = Inr A' \<and> heads_ok g A')
         \<and> (\<forall>p. get g i j \<noteq> CELL_ROCK \<and> 0 < i \<and> A ! (i - 1) ! j = Some p \<longrightarrow>
               is_step_valid g p STEP_DIRECTION_DOWN
               \<and> (\<exists>p'. add_step g p STEP_DIRECTION_DOWN = Inr p'
                      \<and> from_above g A i j = Inr (Some p')
                      \<and> cur_row p' = i \<and> cur_column p' = j))
         \<and> (\<forall>p. get g i j \<noteq> CELL_ROCK \<and> 0 < j \<and> A ! i ! (j - 1) = Some p \<longrightarrow>
               is_step_valid g p STEP_DIRECTION_RIGHT
               \<and> (\<exists>p'. add_step g p STEP_DIRECTION_RIGHT = Inr p'
                      \<and> from_left g A i j = Inr (Some p')
                      \<and> cur_row p' = i \<and> cur_column p' = j)))
   \<and> (0 < rows g \<and> 0 < columns g \<longrightarrow> (\<exists>A. dp_fill g = Inr A \<and> heads_ok g A))"
proof (intro conjI allI impI)
  show "heads_ok g (dp_init g)" by (rule dp_init_heads)
next
  fix A i j assume "heads_ok g A \<and> i < rows g \<and> j < columns g"
  then show "\<exists>A'. dp_cell g i j A = Inr A' \<and> heads_ok g A'"
    using dp_cell_heads by blast
next
  fix A i j p
  assume "heads_ok g A \<and> i < rows g \<and> j < columns g"
    and "get g i j \<noteq> CELL_ROCK \<and> 0 < i \<and> A ! (i - 1) ! j = Some p"
  then have h: "heads_ok g A" "i < rows g" "j < columns g" "get g i j \<noteq> CELL_ROCK"
    "0 < i" "A ! (i - 1) ! j = Some p" by simp_all
  from from_above_head[OF h]
  show "is_step_valid g p STEP_DIRECTION_DOWN"
    and "\<exists>p'. add_step g p STEP_DIRECTION_DOWN = Inr p'
            \<and> from_above g A i j = Inr (Some p') \<and> cur_row p' = i \<and> cur_column p' = j"
    by simp_all
next
  fix A i j p
  assume "heads_ok g A \<and> i < rows g \<and> j < columns g"
    and "get g i j \<noteq> CELL_ROCK \<and> 0 < j \<and> A ! i ! (j - 1) = Some p"
  then have h: "heads_ok g A" "i < rows g" "j < columns g" "get g i j \<noteq> CELL_ROCK"
    "0 < j" "A ! i ! (j - 1) = Some p" by simp_all
  from from_left_head[OF h]
  show "is_step_valid g p STEP_DIRECTION_RIGHT"
    and "\<exists>p'. add_step g p STEP_DIRECTION_RIGHT = Inr p'
            \<and> from_left g A i j = Inr (Some p') \<and> cur_row p' = i \<and> cur_column p' = j"
    by simp_all
next
  assume "0 < rows g \<and> 0 < columns g"
  then show "\<exists>A. dp_fill g = Inr A \<and> heads_ok g A"
    using dp_fill_heads by blast
qed

theorem dp_heads_invariant_witness:
  "heads_ok grid_tie table_tie \<and> get grid_tie 1 1 \<noteq> CELL_ROCK
   \<and> table_tie ! 0 ! 1
     = Some \<lparr>cur_row = 0, cur_column = 1, moves = [STEP_DIRECTION_RIGHT], gold = 3\<rparr>
   \<and> is_step_valid grid_tie
       \<lparr>cur_row = 0, cur_column = 1, moves = [STEP_DIRECTION_RIGHT], gold = 3\<rparr>
       STEP_DIRECTION_DOWN
   \<and> (\<exists>p'. from_above grid_tie table_tie 1 1 = Inr (Some p') \<and> cur_row p' = 1 \<and> cur_column p' = 1)
   \<and> (\<exists>A'. dp_cell grid_tie 1 1 table_tie = Inr A' \<and> heads_ok grid_tie A')
   \<and> (\<exists>A. dp_fill grid_tie = Inr A \<and> heads_ok grid_tie A)"
proof -
  have b: "(1::nat) < rows grid_tie" "(1::nat) < columns grid_tie" "0 < rows grid_tie"
    "0 < columns grid_tie" "get grid_tie 1 1 \<noteq> CELL_ROCK"
    by (simp_all add: grid_tie_def)
  have e: "table_tie ! (1 - 1) ! 1
     = Some \<lparr>cur_row = 0, cur_column = 1, moves = [STEP_DIRECTION_RIGHT], gold = 3\<rparr>"
    by (simp add: table_tie_def)
  note t = dp_heads_invariant[of grid_tie]
  from t heads_ok_table_tie b have 1: "\<exists>A'. dp_cell grid_tie 1 1 table_tie = Inr A' \<and> heads_ok grid_tie A'"
    by blast
  from t heads_ok_table_tie b e
  have 2: "is_step_valid grid_tie
       \<lparr>cur_row = 0, cur_column = 1, moves = [STEP_DIRECTION_RIGHT], gold = 3\<rparr>
       STEP_DIRECTION_DOWN
     \<and> (\<exists>p'. add_step grid_tie \<lparr>cur_row = 0, cur_column = 1, moves = [STEP_DIRECTION_RIGHT], gold = 3\<rparr> STEP_DIRECTION_DOWN = Inr p'
            \<and> from_above grid_tie table_tie 1 1 = Inr (Some p') \<and> cur_row p' = 1 \<and> cur_column p' = 1)"
    by (metis zero_less_one)
  from t b have 3: "\<exists>A. dp_fill grid_tie = Inr A \<and> heads_ok grid_tie A" by blast
  from 1 2 3 heads_ok_table_tie b e show ?thesis by auto
qed

text \<open>
  C9 (as amended). For every non-empty grid whose start cell is not ROCK, the
  path returned by the exhaustive search (when \<open>rows + columns - 2 < 64\<close>) and the
  path returned by the dynamic-programming search visit only cells that are
  within bounds and not ROCK, and replaying the moves from (0,0) ends at the
  reported head position.
\<close>

theorem returned_paths_valid:
  assumes "0 < rows g" and "0 < columns g" and "get g 0 0 \<noteq> CELL_ROCK"
  shows "(rows g + columns g - 2 < 64 \<longrightarrow>
            (\<exists>p. greedy_gnomes_exhaustive g = Inr p
               \<and> list_all (may_step g) (visited (0, 0) (moves p))
               \<and> end_pos (0, 0) (moves p) = (cur_row p, cur_column p)))
         \<and> (\<exists>q. greedy_gnomes_dyn_prog g = Inr q
               \<and> list_all (may_step g) (visited (0, 0) (moves q))
               \<and> end_pos (0, 0) (moves q) = (cur_row q, cur_column q))"
proof -
  have s: "may_step g (0, 0)" using assms by (simp add: may_step_def)
  have "\<exists>p. greedy_gnomes_exhaustive g = Inr p
           \<and> list_all (may_step g) (visited (0, 0) (moves p))
           \<and> end_pos (0, 0) (moves p) = (cur_row p, cur_column p)"
    if "rows g + columns g - 2 < 64"
  proof -
    from exhaustive_optimal[OF assms(1,2) that] obtain p where
      "greedy_gnomes_exhaustive g = Inr p" "wf_path g p" by blast
    with wf_path_visited[OF _ s] show ?thesis by blast
  qed
  moreover have "\<exists>q. greedy_gnomes_dyn_prog g = Inr q
           \<and> list_all (may_step g) (visited (0, 0) (moves q))
           \<and> end_pos (0, 0) (moves q) = (cur_row q, cur_column q)"
  proof -
    from dyn_prog_optimal[OF assms] obtain q where
      "greedy_gnomes_dyn_prog g = Inr q" "wf_path g q" by blast
    with wf_path_visited[OF _ s] show ?thesis by blast
  qed
  ultimately show ?thesis by blast
qed

theorem returned_paths_valid_witness:
  "0 < rows grid_2x2 \<and> 0 < columns grid_2x2 \<and> get grid_2x2 0 0 \<noteq> CELL_ROCK
   \<and> rows grid_2x2 + columns grid_2x2 - 2 < 64
   \<and> (\<exists>p. greedy_gnomes_exhaustive grid_2x2 = Inr p
          \<and> list_all (may_step grid_2x2) (visited (0, 0) (moves p))
          \<and> end_pos (0, 0) (moves p) = (cur_row p, cur_column p))
   \<and> (\<exists>q. greedy_gnomes_dyn_prog grid_2x2 = Inr q
          \<and> list_all (may_step grid_2x2) (visited (0, 0) (moves q))
          \<and> end_pos (0, 0) (moves q) = (cur_row q, cur_column q))"
proof -
  have h: "0 < rows grid_2x2" "0 < columns grid_2x2" "get grid_2x2 0 0 \<noteq> CELL_ROCK"
    by (simp_all add: grid_2x2_def)
  have l: "rows grid_2x2 + columns grid_2x2 - 2 < 64" by (simp add: grid_2x2_def)
  from returned_paths_valid[OF h] l h show ?thesis by blast
qed

text \<open>
  The assertions of the exhaustive search do not exclude a ROCK start cell: on
  the grid that is a single ROCK cell it returns the path without moves, and the
  one cell that path visits is ROCK.
\<close>

theorem returned_path_rock_counterexample:
  "0 < rows grid_rock \<and> 0 < columns grid_rock \<and> rows grid_rock + columns grid_rock - 2 < 64
   \<and> greedy_gnomes_exhaustive grid_rock
     = Inr \<lparr>cur_row = 0, cur_column = 0, moves = [], gold = 0\<rparr>
   \<and> visited (0, 0) (moves \<lparr>cur_row = 0, cur_column = 0, moves = [], gold = 0\<rparr>) = [(0, 0)]
   \<and> get grid_rock 0 0 = CELL_ROCK
   \<and> \<not> list_all (may_step grid_rock)
         (visited (0, 0) (moves \<lparr>cur_row = 0, cur_column = 0, moves = [], gold = 0\<rparr>))"
  by code_simp

text \<open>
  C10. The exhaustive search ends in a failed assertion if and only if the grid
  is empty or \<open>rows + columns - 2 \<ge> 64\<close>; the dynamic-programming search ends in a
  failed assertion if and only if the grid is empty. So under the preconditions
  no assertion fails in either function (the assertion inside \<^verbatim>\<open>add_step\<close>
  included), and on a non-empty grid the exhaustive search fails exactly when
  \<open>rows + columns - 2 \<ge> 64\<close>.
\<close>

theorem assertions_exact:
  "(greedy_gnomes_exhaustive g = Inl ASSERTION_FAILED
      \<longleftrightarrow> \<not> (0 < rows g \<and> 0 < columns g \<and> rows g + columns g - 2 < 64))
   \<and> (greedy_gnomes_dyn_prog g = Inl ASSERTION_FAILED \<longleftrightarrow> \<not> (0 < rows g \<and> 0 < columns g))
   \<and> (0 < rows g \<and> 0 < columns g \<longrightarrow>
        (greedy_gnomes_exhaustive g = Inl ASSERTION_FAILED \<longleftrightarrow> 64 \<le> rows g + columns g - 2))"
proof -
  have e: "greedy_gnomes_exhaustive g = Inl ASSERTION_FAILED
      \<longleftrightarrow> \<not> (0 < rows g \<and> 0 < columns g \<and> rows g + columns g - 2 < 64)"
  proof (cases "0 < rows g \<and> 0 < columns g \<and> rows g + columns g - 2 < 64")
    case True
    then obtain p where "greedy_gnomes_exhaustive g = Inr p"
      using exhaustive_optimal[of g] by blast
    with True show ?thesis by simp
  next
    case False
    then show ?thesis by (auto simp: greedy_gnomes_exhaustive_def Let_def)
  qed
  have d: "greedy_gnomes_dyn_prog g = Inl ASSERTION_FAILED \<longleftrightarrow> \<not> (0 < rows g \<and> 0 < columns g)"
  proof (cases "0 < rows g \<and> 0 < columns g")
    case True
    then obtain A where A: "dp_fill g = Inr A" using dp_fill_heads[of g] by blast
    with True have r: "greedy_gnomes_dyn_prog g = dp_post g A"
      by (simp add: greedy_gnomes_dyn_prog_def)
    have "dp_post g A \<noteq> Inl ASSERTION_FAILED"
      using dp_post_error[of g A ASSERTION_FAILED] by auto
    with r True show ?thesis by simp
  next
    case False
    then show ?thesis by (auto simp: greedy_gnomes_dyn_prog_def)
  qed
  from e d show ?thesis by auto
qed

theorem assertions_exact_witness:
  "0 < rows grid_long \<and> 0 < columns grid_long \<and> 64 \<le> rows grid_long + columns grid_long - 2
   \<and> greedy_gnomes_exhaustive grid_long = Inl ASSERTION_FAILED
   \<and> greedy_gnomes_dyn_prog grid_long \<noteq> Inl ASSERTION_FAILED
   \<and> greedy_gnomes_exhaustive grid_empty = Inl ASSERTION_FAILED
   \<and> greedy_gnomes_dyn_prog grid_empty = Inl ASSERTION_FAILED
   \<and> greedy_gnomes_exhaustive grid_rock_start \<noteq> Inl ASSERTION_FAILED
   \<and> greedy_gnomes_dyn_prog grid_rock_start \<noteq> Inl ASSERTION_FAILED"
proof -
  have l: "0 < rows grid_long" "0 < columns grid_long" "64 \<le> rows grid_long + columns grid_long - 2"
    by (simp_all add: grid_long_def)
  have e: "\<not> 0 < rows grid_empty" by (simp add: grid_empty_def)
  have r: "0 < rows grid_rock_start" "0 < columns grid_rock_start"
    "rows grid_rock_start + columns grid_rock_start - 2 < 64"
    by (simp_all add: grid_rock_start_def)
  from assertions_exact[of grid_long] assertions_exact[of grid_empty]
    assertions_exact[of grid_rock_start] l e r
  show ?thesis by simp
qed

end
